theory Spec2Isabelle
  imports Main "HOL-Library.Word"
begin

section \<open>Python values, exceptions and outcomes\<close>

text \<open>
  The program is one class, \<^verbatim>\<open>PixabayDownloader\<close>, with a constructor and three methods:
  \<^verbatim>\<open>obtener_urls_imagenes\<close> (the spec's search), \<^verbatim>\<open>descargar_imagen\<close> (fetch) and
  \<^verbatim>\<open>descargar_imagenes_concurrentes\<close> (run). Everything it does goes through three
  libraries, \<^verbatim>\<open>requests\<close>, \<^verbatim>\<open>os\<close> and \<^verbatim>\<open>threading\<close>. The methods are translated line by
  line; the library calls they make are modelled by their documented behaviour, and the
  network and the file system are explicit inputs.

  A decoded JSON document is a Python value. A \<^verbatim>\<open>dict\<close> is an association list in
  insertion order, a float is kept as a decimal mantissa and exponent (the program never
  computes with one).
\<close>

type_synonym byte = "8 word"

datatype pyval =
    PNone
  | PBool bool
  | PInt int
  | PFloat int int
  | PStr string
  | PList "pyval list"
  | PDict "(string \<times> pyval) list"

text \<open>
  The operating system's error numbers that the file operations of the program can meet;
  Python raises each as a subclass of \<^verbatim>\<open>OSError\<close> (FileNotFoundError, NotADirectoryError,
  IsADirectoryError, PermissionError, FileExistsError, and plain OSError for EFBIG).
\<close>

datatype errno = ENOENT | ENOTDIR | EISDIR | EACCES | EEXIST | EFBIG

text \<open>
  The exceptions. The first four are the classes of \<^verbatim>\<open>requests.exceptions\<close>, all
  subclasses of \<^verbatim>\<open>RequestException\<close>: \<open>RequestException\<close> stands for whatever
  \<^verbatim>\<open>requests.get\<close> itself raises (ConnectionError, Timeout, TooManyRedirects,
  MissingSchema, InvalidURL, ...), \<open>HTTPError\<close> is raised by \<^verbatim>\<open>raise_for_status\<close>,
  \<open>ChunkedEncodingError\<close> by a body that breaks off, \<open>JSONDecodeError\<close> by
  \<^verbatim>\<open>Response.json\<close> (a subclass of RequestException since requests 2.27). Each carries
  its message, which is what \<^verbatim>\<open>str(e)\<close> gives.
\<close>

datatype exn =
    RequestException string
  | HTTPError string
  | ChunkedEncodingError string
  | JSONDecodeError string
  | KeyError string
  | TypeError string
  | OSError errno

fun is_RequestException :: "exn \<Rightarrow> bool" where
  "is_RequestException (RequestException _) = True"
| "is_RequestException (HTTPError _) = True"
| "is_RequestException (ChunkedEncodingError _) = True"
| "is_RequestException (JSONDecodeError _) = True"
| "is_RequestException (KeyError _) = False"
| "is_RequestException (TypeError _) = False"
| "is_RequestException (OSError _) = False"

fun str_exn :: "exn \<Rightarrow> string" where
  "str_exn (RequestException m) = m"
| "str_exn (HTTPError m) = m"
| "str_exn (ChunkedEncodingError m) = m"
| "str_exn (JSONDecodeError m) = m"
| "str_exn (KeyError k) = [CHR 0x27] @ k @ [CHR 0x27]"
| "str_exn (TypeError m) = m"
| "str_exn (OSError e) = ''OSError''"

text \<open>
  What a call does: it returns a value, raises an exception, or never comes back. The
  program sets no timeout on its HTTP requests, so a call into the network may block for
  ever; \<open>Hang\<close> is that outcome.
\<close>

datatype 'a result = Return 'a | Raise exn | Hang

fun result_bind :: "'a result \<Rightarrow> ('a \<Rightarrow> 'b result) \<Rightarrow> 'b result" where
  "result_bind (Return x) f = f x"
| "result_bind (Raise e) f = Raise e"
| "result_bind Hang f = Hang"

text \<open>A list comprehension: the elements in order, stopping at the first exception.\<close>

fun traverse :: "('a \<Rightarrow> 'b result) \<Rightarrow> 'a list \<Rightarrow> 'b list result" where
  "traverse f [] = Return []"
| "traverse f (x # xs) =
     result_bind (f x) (\<lambda>y. result_bind (traverse f xs) (\<lambda>ys. Return (y # ys)))"

text \<open>
  \<^verbatim>\<open>v[k]\<close> for a string key \<open>k\<close>: a dict looks the key up and raises KeyError when it is
  missing; every other JSON value raises TypeError.
\<close>

fun getitem_str :: "pyval \<Rightarrow> string \<Rightarrow> pyval result" where
  "getitem_str (PDict kvs) k =
     (case map_of kvs k of None \<Rightarrow> Raise (KeyError k) | Some v \<Rightarrow> Return v)"
| "getitem_str (PList xs) k = Raise (TypeError ''list indices must be integers or slices, not str'')"
| "getitem_str (PStr s) k = Raise (TypeError ''string indices must be integers, not str'')"
| "getitem_str PNone k = Raise (TypeError ''NoneType object is not subscriptable'')"
| "getitem_str (PBool b) k = Raise (TypeError ''bool object is not subscriptable'')"
| "getitem_str (PInt i) k = Raise (TypeError ''int object is not subscriptable'')"
| "getitem_str (PFloat m e) k = Raise (TypeError ''float object is not subscriptable'')"

text \<open>
  \<^verbatim>\<open>for x in v\<close>: a list gives its elements, a dict its keys, a string its characters;
  the other JSON values are not iterable.
\<close>

fun py_iter :: "pyval \<Rightarrow> pyval list result" where
  "py_iter (PList xs) = Return xs"
| "py_iter (PDict kvs) = Return (map (\<lambda>kv. PStr (fst kv)) kvs)"
| "py_iter (PStr s) = Return (map (\<lambda>c. PStr [c]) s)"
| "py_iter PNone = Raise (TypeError ''NoneType object is not iterable'')"
| "py_iter (PBool b) = Raise (TypeError ''bool object is not iterable'')"
| "py_iter (PInt i) = Raise (TypeError ''int object is not iterable'')"
| "py_iter (PFloat m e) = Raise (TypeError ''float object is not iterable'')"

text \<open>\<^verbatim>\<open>str(n)\<close> for a natural number: its decimal digits.\<close>

definition digit_char :: "nat \<Rightarrow> char" where
  "digit_char d = ''0123456789'' ! d"

fun str_nat :: "nat \<Rightarrow> string" where
  "str_nat n = (if n < 10 then [digit_char n] else str_nat (n div 10) @ [digit_char (n mod 10)])"

declare str_nat.simps [simp del]

section \<open>The network\<close>

text \<open>
  A request is the URL, the query parameters and the \<^verbatim>\<open>stream\<close> flag. The network is a
  function from requests to what comes back: the request fails in \<^verbatim>\<open>requests.get\<close>
  (with the exception's message), a response arrives, or nothing ever arrives.

  A response has its status line, the body as bytes, the body decoded as JSON (\<open>None\<close>
  when it is not JSON; the decoder itself is not modelled) and the way its body stream
  ends: complete, broken off after so many bytes, or stalled after so many bytes.
\<close>

datatype stream_end = Complete | Broken nat | Stalled nat

record response =
  status_code :: nat
  reason :: string
  url :: string
  content :: "byte list"
  json_body :: "pyval option"
  ending :: stream_end

record request =
  req_url :: string
  req_params :: "(string \<times> pyval) list"
  req_stream :: bool

datatype net_outcome = Fails string | Responds response | NoAnswer

type_synonym network = "request \<Rightarrow> net_outcome"

section \<open>The file system\<close>

text \<open>
  A file system maps canonical paths (the list of names from the root) to nodes; the
  root is always a directory. \<open>writable\<close> says for each canonical path whether the
  process may create entries in that directory, or overwrite that file. \<open>cwd\<close> is the
  working directory, where relative paths start. \<open>file_size_limit\<close> is the largest size
  a file may grow to (RLIMIT\_FSIZE), \<open>None\<close> when there is no limit: a write beyond it
  fails with EFBIG.
\<close>

datatype node = File "byte list" | Dir

record filesystem =
  nodes :: "string list \<Rightarrow> node option"
  writable :: "string list \<Rightarrow> bool"
  cwd :: "string list"
  file_size_limit :: "nat option"

definition lookup :: "filesystem \<Rightarrow> string list \<Rightarrow> node option" where
  "lookup f k = (if k = [] then Some Dir else nodes f k)"

text \<open>A path string split at every \<^verbatim>\<open>/\<close>.\<close>

fun split_sep :: "string \<Rightarrow> string list" where
  "split_sep [] = [[]]"
| "split_sep (c # cs) =
     (if c = CHR ''/'' then [] # split_sep cs
      else (case split_sep cs of [] \<Rightarrow> [[c]] | w # ws \<Rightarrow> (c # w) # ws))"

definition start_dir :: "filesystem \<Rightarrow> string \<Rightarrow> string list" where
  "start_dir f p = (case p of [] \<Rightarrow> cwd f | c # _ \<Rightarrow> if c = CHR ''/'' then [] else cwd f)"

text \<open>
  Path resolution walks the components from a directory: every component is looked up
  in a directory that exists; an empty component and \<^verbatim>\<open>.\<close> stay, \<^verbatim>\<open>..\<close> goes to the
  parent. The result is the canonical path reached; whether something exists there is
  for the caller to look up. There are no symbolic links.
\<close>

fun walk :: "filesystem \<Rightarrow> string list \<Rightarrow> string list \<Rightarrow> string list result" where
  "walk f cur [] = Return cur"
| "walk f cur (c # cs) =
     (case lookup f cur of
        None \<Rightarrow> Raise (OSError ENOENT)
      | Some (File _) \<Rightarrow> Raise (OSError ENOTDIR)
      | Some Dir \<Rightarrow>
          if c = [] \<or> c = ''.'' then walk f cur cs
          else if c = ''..'' then walk f (butlast cur) cs
          else walk f (cur @ [c]) cs)"

definition resolve :: "filesystem \<Rightarrow> string \<Rightarrow> string list result" where
  "resolve f p = (if p = [] then Raise (OSError ENOENT) else walk f (start_dir f p) (split_sep p))"

definition isdir :: "filesystem \<Rightarrow> string \<Rightarrow> bool" where
  "isdir f p = (case resolve f p of Return k \<Rightarrow> lookup f k = Some Dir | _ \<Rightarrow> False)"

definition file_at :: "filesystem \<Rightarrow> string \<Rightarrow> byte list option" where
  "file_at f p =
     (case resolve f p of
        Return k \<Rightarrow> (case lookup f k of Some (File b) \<Rightarrow> Some b | _ \<Rightarrow> None)
      | _ \<Rightarrow> None)"

text \<open>
  \<^verbatim>\<open>os.makedirs(name, exist_ok=True)\<close>, by its documented effect: every directory along
  the path that is missing is created, left to right, and what exists is walked through;
  at the end the path must be a directory (with \<^verbatim>\<open>exist_ok\<close> an existing directory is
  accepted). A regular file in the way, or a directory that may not be written where one
  must be created, raises OSError.
\<close>

fun makedirs_walk :: "filesystem \<Rightarrow> string list \<Rightarrow> string list \<Rightarrow> filesystem result" where
  "makedirs_walk f cur [] =
     (case lookup f cur of
        None \<Rightarrow> Raise (OSError ENOENT)
      | Some (File _) \<Rightarrow> Raise (OSError EEXIST)
      | Some Dir \<Rightarrow> Return f)"
| "makedirs_walk f cur (c # cs) =
     (case lookup f cur of
        None \<Rightarrow> Raise (OSError ENOENT)
      | Some (File _) \<Rightarrow> Raise (OSError ENOTDIR)
      | Some Dir \<Rightarrow>
          if c = [] \<or> c = ''.'' then makedirs_walk f cur cs
          else if c = ''..'' then makedirs_walk f (butlast cur) cs
          else (case lookup f (cur @ [c]) of
                  Some _ \<Rightarrow> makedirs_walk f (cur @ [c]) cs
                | None \<Rightarrow>
                    if writable f cur
                    then makedirs_walk (f\<lparr>nodes := (nodes f)(cur @ [c] \<mapsto> Dir)\<rparr>) (cur @ [c]) cs
                    else Raise (OSError EACCES)))"

definition os_makedirs :: "filesystem \<Rightarrow> string \<Rightarrow> filesystem result" where
  "os_makedirs f p =
     (if p = [] then Raise (OSError ENOENT) else makedirs_walk f (start_dir f p) (split_sep p))"

text \<open>
  \<^verbatim>\<open>os.path.join(a, b)\<close> on POSIX: an absolute \<open>b\<close> replaces \<open>a\<close>; otherwise \<open>b\<close> is
  appended, with a \<^verbatim>\<open>/\<close> between unless \<open>a\<close> is empty or already ends in one.
\<close>

definition os_path_join :: "string \<Rightarrow> string \<Rightarrow> string" where
  "os_path_join a b =
     (if b \<noteq> [] \<and> hd b = CHR ''/'' then b
      else if a = [] \<or> last a = CHR ''/'' then a @ b
      else a @ ''/'' @ b)"

text \<open>
  \<^verbatim>\<open>open(path, 'wb')\<close>: the directory part is resolved and must be a directory; a
  directory at the path itself raises IsADirectoryError; an existing file is truncated
  when it may be written, a missing one is created empty when its directory may be
  written. The handle returned is the file's canonical path.
\<close>

definition open_wb :: "filesystem \<Rightarrow> string \<Rightarrow> (string list \<times> filesystem) result" where
  "open_wb f p =
     (if p = [] then Raise (OSError ENOENT)
      else result_bind (walk f (start_dir f p) (butlast (split_sep p))) (\<lambda>parent.
        case lookup f parent of
          None \<Rightarrow> Raise (OSError ENOENT)
        | Some (File _) \<Rightarrow> Raise (OSError ENOTDIR)
        | Some Dir \<Rightarrow>
            let name = last (split_sep p); k = parent @ [name] in
            if name = [] \<or> name = ''.'' \<or> name = ''..'' then Raise (OSError EISDIR)
            else (case lookup f k of
                    Some Dir \<Rightarrow> Raise (OSError EISDIR)
                  | Some (File _) \<Rightarrow>
                      if writable f k then Return (k, f\<lparr>nodes := (nodes f)(k \<mapsto> File [])\<rparr>)
                      else Raise (OSError EACCES)
                  | None \<Rightarrow>
                      if writable f parent then Return (k, f\<lparr>nodes := (nodes f)(k \<mapsto> File [])\<rparr>)
                      else Raise (OSError EACCES))))"

text \<open>
  \<^verbatim>\<open>archivo.write(fragmento)\<close>: the bytes are appended to the open file, unless the file
  would grow beyond the size limit.
\<close>

definition file_write :: "filesystem \<Rightarrow> string list \<Rightarrow> byte list \<Rightarrow> unit result \<times> filesystem" where
  "file_write f k bs =
     (case nodes f k of
        Some (File old) \<Rightarrow>
          (case file_size_limit f of
             None \<Rightarrow> (Return (), f\<lparr>nodes := (nodes f)(k \<mapsto> File (old @ bs))\<rparr>)
           | Some m \<Rightarrow>
               if length old + length bs \<le> m
               then (Return (), f\<lparr>nodes := (nodes f)(k \<mapsto> File (old @ bs))\<rparr>)
               else (Raise (OSError EFBIG), f))
      | _ \<Rightarrow> (Return (), f))"

section \<open>The program state\<close>

text \<open>
  The state holds the two attributes of the one \<^verbatim>\<open>PixabayDownloader\<close> instance, the
  file system, the lines printed to standard output and the requests sent so far.
\<close>

record state =
  api_key :: string
  directorio_imagenes :: string
  fs :: filesystem
  stdout :: "string list"
  sent :: "request list"

definition print_line :: "string \<Rightarrow> state \<Rightarrow> state" where
  "print_line line s = s\<lparr>stdout := stdout s @ [line]\<rparr>"

section \<open>The requests library\<close>

text \<open>
  \<^verbatim>\<open>requests.get(url, params=..., stream=...)\<close>. A URL that is not a string is turned
  into one by \<^verbatim>\<open>str\<close> and has no scheme, so the library raises before anything is sent.
  Otherwise the request is sent. Without \<^verbatim>\<open>stream=True\<close> the whole body is read before
  \<^verbatim>\<open>get\<close> returns, so a body that breaks off or stalls does so inside \<^verbatim>\<open>get\<close>.
\<close>

definition requests_get ::
  "network \<Rightarrow> pyval \<Rightarrow> (string \<times> pyval) list \<Rightarrow> bool \<Rightarrow> state \<Rightarrow> response result \<times> state" where
  "requests_get net u params stream s =
     (case u of
        PStr target \<Rightarrow>
          (let rq = \<lparr>req_url = target, req_params = params, req_stream = stream\<rparr>;
               s1 = s\<lparr>sent := sent s @ [rq]\<rparr>
           in case net rq of
                Fails msg \<Rightarrow> (Raise (RequestException msg), s1)
              | NoAnswer \<Rightarrow> (Hang, s1)
              | Responds r \<Rightarrow>
                  if stream then (Return r, s1)
                  else (case ending r of
                          Complete \<Rightarrow> (Return r, s1)
                        | Broken n \<Rightarrow> (Raise (ChunkedEncodingError ''Connection broken''), s1)
                        | Stalled n \<Rightarrow> (Hang, s1)))
      | _ \<Rightarrow> (Raise (RequestException ''Invalid URL: No scheme supplied''), s))"

text \<open>
  \<^verbatim>\<open>Response.raise_for_status()\<close> raises HTTPError for a 4xx status ("Client Error") and
  for a 5xx status ("Server Error"), and for no other status.
\<close>

definition http_error_msg :: "response \<Rightarrow> string" where
  "http_error_msg r =
     str_nat (status_code r)
       @ (if status_code r < 500 then '' Client Error: '' else '' Server Error: '')
       @ reason r @ '' for url: '' @ url r"

definition raise_for_status :: "response \<Rightarrow> unit result" where
  "raise_for_status r =
     (if 400 \<le> status_code r \<and> status_code r < 600 then Raise (HTTPError (http_error_msg r))
      else Return ())"

definition response_json :: "response \<Rightarrow> pyval result" where
  "response_json r =
     (case json_body r of
        None \<Rightarrow> Raise (JSONDecodeError ''Expecting value'')
      | Some v \<Rightarrow> Return v)"

section \<open>obtener\_urls\_imagenes (search)\<close>

definition URL_BASE :: string where
  "URL_BASE = ''https://pixabay.com/api/''"

definition parametros :: "state \<Rightarrow> string \<Rightarrow> int \<Rightarrow> (string \<times> pyval) list" where
  "parametros s consulta cantidad =
     [(''key'', PStr (api_key s)), (''q'', PStr consulta),
      (''image_type'', PStr ''photo''), (''per_page'', PInt cantidad)]"

text \<open>
  The lines of the \<^verbatim>\<open>try\<close> block after the request:
  \<^verbatim>\<open>
      respuesta.raise_for_status()
      datos = respuesta.json()
      urls = [imagen['largeImageURL'] for imagen in datos['hits']]
      return urls
  \<close>
\<close>

definition extraer_urls :: "response \<Rightarrow> pyval list result" where
  "extraer_urls respuesta =
     result_bind (raise_for_status respuesta) (\<lambda>_.
     result_bind (response_json respuesta) (\<lambda>datos.
     result_bind (getitem_str datos ''hits'') (\<lambda>hits.
     result_bind (py_iter hits) (\<lambda>imagenes.
     traverse (\<lambda>imagen. getitem_str imagen ''largeImageURL'') imagenes))))"

definition search_request :: "state \<Rightarrow> string \<Rightarrow> int \<Rightarrow> request" where
  "search_request s consulta cantidad =
     \<lparr>req_url = URL_BASE, req_params = parametros s consulta cantidad, req_stream = False\<rparr>"

definition fetch_request :: "string \<Rightarrow> request" where
  "fetch_request target = \<lparr>req_url = target, req_params = [], req_stream = True\<rparr>"

definition obtener_urls_try :: "network \<Rightarrow> string \<Rightarrow> int \<Rightarrow> state \<Rightarrow> pyval list result \<times> state" where
  "obtener_urls_try net consulta cantidad s =
     (case requests_get net (PStr URL_BASE) (parametros s consulta cantidad) False s of
        (Return respuesta, s1) \<Rightarrow> (extraer_urls respuesta, s1)
      | (Raise e, s1) \<Rightarrow> (Raise e, s1)
      | (Hang, s1) \<Rightarrow> (Hang, s1))"

text \<open>
  The method: the \<^verbatim>\<open>try\<close> block, and the one handler
  \<^verbatim>\<open>except requests.exceptions.RequestException as e\<close>, which prints
  \<^verbatim>\<open>f"Error en la solicitud a la API: {e}"\<close> and returns the empty list. An exception
  of another class passes through.
\<close>

definition msg_error_api :: "exn \<Rightarrow> string" where
  "msg_error_api e = ''Error en la solicitud a la API: '' @ str_exn e"

definition obtener_urls_imagenes :: "network \<Rightarrow> string \<Rightarrow> int \<Rightarrow> state \<Rightarrow> pyval list result \<times> state" where
  "obtener_urls_imagenes net consulta cantidad s =
     (case obtener_urls_try net consulta cantidad s of
        (Raise e, s1) \<Rightarrow>
          if is_RequestException e
          then (Return [], print_line (msg_error_api e) s1)
          else (Raise e, s1)
      | (r, s1) \<Rightarrow> (r, s1))"

section \<open>descargar\_imagen (fetch)\<close>

text \<open>
  \<^verbatim>\<open>respuesta.iter_content(chunk_size=n)\<close> cuts the body into pieces of \<open>n\<close> bytes, the
  last one shorter when the length is no multiple of \<open>n\<close>.
\<close>

fun chunks :: "nat \<Rightarrow> 'a list \<Rightarrow> 'a list list" where
  "chunks n xs = (if n = 0 \<or> xs = [] then [] else take n xs # chunks n (drop n xs))"

declare chunks.simps [simp del]

text \<open>
  The pieces the iterator yields and how the iteration ends: after the whole body, or
  with ChunkedEncodingError or a stall after the bytes that arrived.
\<close>

definition iter_content :: "nat \<Rightarrow> response \<Rightarrow> byte list list \<times> unit result" where
  "iter_content n r =
     (case ending r of
        Complete \<Rightarrow> (chunks n (content r), Return ())
      | Broken b \<Rightarrow> (chunks n (take b (content r)), Raise (ChunkedEncodingError ''Connection broken''))
      | Stalled b \<Rightarrow> (chunks n (take b (content r)), Hang))"

fun write_all :: "filesystem \<Rightarrow> string list \<Rightarrow> byte list list \<Rightarrow> unit result \<times> filesystem" where
  "write_all f k [] = (Return (), f)"
| "write_all f k (c # cs) =
     (case file_write f k c of
        (Return _, f1) \<Rightarrow> write_all f1 k cs
      | (Raise e, f1) \<Rightarrow> (Raise e, f1)
      | (Hang, f1) \<Rightarrow> (Hang, f1))"

text \<open>
  \<^verbatim>\<open>
      for fragmento in respuesta.iter_content(chunk_size=8192):
          archivo.write(fragmento)
  \<close>
\<close>

definition escribir_fragmentos ::
  "filesystem \<Rightarrow> string list \<Rightarrow> response \<Rightarrow> unit result \<times> filesystem" where
  "escribir_fragmentos f archivo respuesta =
     (case write_all f archivo (fst (iter_content 8192 respuesta)) of
        (Return _, f1) \<Rightarrow> (snd (iter_content 8192 respuesta), f1)
      | (Raise e, f1) \<Rightarrow> (Raise e, f1)
      | (Hang, f1) \<Rightarrow> (Hang, f1))"

text \<open>
  The \<^verbatim>\<open>try\<close> block of \<^verbatim>\<open>descargar_imagen\<close>: the streaming request, the status check,
  the path, the file opened for writing (closed again by \<^verbatim>\<open>with\<close> however the block
  ends, with what was written left in place), the loop, and the completion message.
\<close>

definition msg_descarga_completada :: "string \<Rightarrow> string" where
  "msg_descarga_completada nombre_archivo = ''Descarga completada: '' @ nombre_archivo"

definition msg_error_descargando :: "string \<Rightarrow> exn \<Rightarrow> string" where
  "msg_error_descargando nombre_archivo e =
     ''Error descargando '' @ nombre_archivo @ '': '' @ str_exn e"

definition descargar_try :: "network \<Rightarrow> pyval \<Rightarrow> string \<Rightarrow> state \<Rightarrow> unit result \<times> state" where
  "descargar_try net u nombre_archivo s =
     (case requests_get net u [] True s of
        (Return respuesta, s1) \<Rightarrow>
          (case raise_for_status respuesta of
             Return _ \<Rightarrow>
               (let ruta = os_path_join (directorio_imagenes s1) nombre_archivo
                in case open_wb (fs s1) ruta of
                     Return (archivo, f1) \<Rightarrow>
                       (case escribir_fragmentos f1 archivo respuesta of
                          (Return _, f2) \<Rightarrow>
                            (Return (),
                             print_line (msg_descarga_completada nombre_archivo) (s1\<lparr>fs := f2\<rparr>))
                        | (Raise e, f2) \<Rightarrow> (Raise e, s1\<lparr>fs := f2\<rparr>)
                        | (Hang, f2) \<Rightarrow> (Hang, s1\<lparr>fs := f2\<rparr>))
                   | Raise e \<Rightarrow> (Raise e, s1)
                   | Hang \<Rightarrow> (Hang, s1))
           | Raise e \<Rightarrow> (Raise e, s1)
           | Hang \<Rightarrow> (Hang, s1))
      | (Raise e, s1) \<Rightarrow> (Raise e, s1)
      | (Hang, s1) \<Rightarrow> (Hang, s1))"

definition descargar_imagen :: "network \<Rightarrow> pyval \<Rightarrow> string \<Rightarrow> state \<Rightarrow> unit result \<times> state" where
  "descargar_imagen net u nombre_archivo s =
     (case descargar_try net u nombre_archivo s of
        (Raise e, s1) \<Rightarrow>
          if is_RequestException e
          then (Return (), print_line (msg_error_descargando nombre_archivo e) s1)
          else (Raise e, s1)
      | (r, s1) \<Rightarrow> (r, s1))"

section \<open>The constructor\<close>

text \<open>
  \<^verbatim>\<open>
      self.api_key = api_key
      self.directorio_imagenes = directorio_imagenes
      os.makedirs(directorio_imagenes, exist_ok=True)
  \<close>
\<close>

definition PixabayDownloader_init :: "string \<Rightarrow> string \<Rightarrow> state \<Rightarrow> unit result \<times> state" where
  "PixabayDownloader_init key directorio s =
     (let s1 = s\<lparr>api_key := key, directorio_imagenes := directorio\<rparr>
      in case os_makedirs (fs s1) directorio of
           Return f1 \<Rightarrow> (Return (), s1\<lparr>fs := f1\<rparr>)
         | Raise e \<Rightarrow> (Raise e, s1)
         | Hang \<Rightarrow> (Hang, s1))"

section \<open>descargar\_imagenes\_concurrentes (run)\<close>

text \<open>
  The method starts one thread per URL and joins them all, so its executions are the
  interleavings of the main thread with the threads it started. A configuration holds
  the shared state, where the main thread stands, the list \<^verbatim>\<open>urls\<close> and the list
  \<^verbatim>\<open>hilos\<close>. A thread is its target's two arguments and its status: running, blocked
  for ever in a call that never returns, or finished with the outcome of its target
  (an exception that leaves the target ends the thread, and only the thread). A
  thread runs its call of \<^verbatim>\<open>descargar_imagen\<close> in one step, at any moment after its start.
\<close>

datatype thread_state = Running | Blocked | Finished "unit result"

record hilo =
  target_url :: pyval
  target_nombre :: string
  estado :: thread_state

datatype control = Searching | Spawning nat | Joining nat | Returned "unit result"

record config =
  st :: state
  pc :: control
  urls :: "pyval list"
  hilos :: "hilo list"

definition a_acute :: string where
  "a_acute = [CHR 0xC3, CHR 0xA1]"

definition msg_no_images :: string where
  "msg_no_images = ''No se encontraron im'' @ a_acute @ ''genes para descargar.''"

definition msg_all_done :: string where
  "msg_all_done = ''Todas las im'' @ a_acute @ ''genes han sido descargadas.''"

text \<open>\<^verbatim>\<open>f"imagen_{i+1}.jpg"\<close> for the index \<open>i\<close> that \<^verbatim>\<open>enumerate\<close> counts from 0.\<close>

definition nombre_archivo_de :: "nat \<Rightarrow> string" where
  "nombre_archivo_de i = ''imagen_'' @ str_nat (i + 1) @ ''.jpg''"

definition nuevo_hilo :: "pyval list \<Rightarrow> nat \<Rightarrow> hilo" where
  "nuevo_hilo us i =
     \<lparr>target_url = us ! i, target_nombre = nombre_archivo_de i, estado = Running\<rparr>"

definition init_config :: "state \<Rightarrow> config" where
  "init_config s = \<lparr>st = s, pc = Searching, urls = [], hilos = []\<rparr>"

text \<open>
  The steps. The first three are the call of \<^verbatim>\<open>obtener_urls_imagenes\<close> and the test
  \<^verbatim>\<open>if not urls\<close>; \<open>spawn\<close> is one round of the first loop (create, append, start);
  \<open>spawned\<close> leaves that loop; \<open>thread_runs\<close> and \<open>thread_blocks\<close> are a started thread
  running its target; \<open>join\<close> is one round of the second loop, which can be taken only
  when the thread joined has finished; \<open>all_joined\<close> prints the last message and returns.
\<close>

inductive run_step :: "network \<Rightarrow> string \<Rightarrow> int \<Rightarrow> config \<Rightarrow> config \<Rightarrow> bool"
  for net :: network and consulta :: string and cantidad :: int
where
  search_empty:
    "pc c = Searching \<Longrightarrow>
     obtener_urls_imagenes net consulta cantidad (st c) = (Return [], s1) \<Longrightarrow>
     run_step net consulta cantidad c
       (c\<lparr>st := print_line msg_no_images s1, pc := Returned (Return ())\<rparr>)"
| search_found:
    "pc c = Searching \<Longrightarrow>
     obtener_urls_imagenes net consulta cantidad (st c) = (Return us, s1) \<Longrightarrow> us \<noteq> [] \<Longrightarrow>
     run_step net consulta cantidad c (c\<lparr>st := s1, pc := Spawning 0, urls := us\<rparr>)"
| search_raises:
    "pc c = Searching \<Longrightarrow>
     obtener_urls_imagenes net consulta cantidad (st c) = (Raise e, s1) \<Longrightarrow>
     run_step net consulta cantidad c (c\<lparr>st := s1, pc := Returned (Raise e)\<rparr>)"
| spawn:
    "pc c = Spawning i \<Longrightarrow> i < length (urls c) \<Longrightarrow>
     run_step net consulta cantidad c
       (c\<lparr>pc := Spawning (Suc i), hilos := hilos c @ [nuevo_hilo (urls c) i]\<rparr>)"
| spawned:
    "pc c = Spawning i \<Longrightarrow> \<not> i < length (urls c) \<Longrightarrow>
     run_step net consulta cantidad c (c\<lparr>pc := Joining 0\<rparr>)"
| thread_runs:
    "j < length (hilos c) \<Longrightarrow> estado (hilos c ! j) = Running \<Longrightarrow>
     descargar_imagen net (target_url (hilos c ! j)) (target_nombre (hilos c ! j)) (st c) = (r, s1) \<Longrightarrow>
     r \<noteq> Hang \<Longrightarrow>
     run_step net consulta cantidad c
       (c\<lparr>st := s1, hilos := (hilos c)[j := (hilos c ! j)\<lparr>estado := Finished r\<rparr>]\<rparr>)"
| thread_blocks:
    "j < length (hilos c) \<Longrightarrow> estado (hilos c ! j) = Running \<Longrightarrow>
     descargar_imagen net (target_url (hilos c ! j)) (target_nombre (hilos c ! j)) (st c) = (Hang, s1) \<Longrightarrow>
     run_step net consulta cantidad c
       (c\<lparr>st := s1, hilos := (hilos c)[j := (hilos c ! j)\<lparr>estado := Blocked\<rparr>]\<rparr>)"
| join:
    "pc c = Joining j \<Longrightarrow> j < length (hilos c) \<Longrightarrow> estado (hilos c ! j) = Finished r \<Longrightarrow>
     run_step net consulta cantidad c (c\<lparr>pc := Joining (Suc j)\<rparr>)"
| all_joined:
    "pc c = Joining j \<Longrightarrow> \<not> j < length (hilos c) \<Longrightarrow>
     run_step net consulta cantidad c
       (c\<lparr>st := print_line msg_all_done (st c), pc := Returned (Return ())\<rparr>)"

text \<open>The configurations an execution of the method from state \<open>s\<close> passes through.\<close>

inductive reachable :: "network \<Rightarrow> string \<Rightarrow> int \<Rightarrow> state \<Rightarrow> config \<Rightarrow> bool"
  for net :: network and consulta :: string and cantidad :: int and s :: state
where
  start: "reachable net consulta cantidad s (init_config s)"
| step: "reachable net consulta cantidad s c \<Longrightarrow> run_step net consulta cantidad c c' \<Longrightarrow>
     reachable net consulta cantidad s c'"

section \<open>Terms the properties are stated in\<close>

text \<open>
  The search call fails when \<^verbatim>\<open>requests.get\<close> raises (no connection, or a body that
  breaks off while it is read) or when a response arrives whose status
  \<^verbatim>\<open>raise_for_status\<close> rejects.
\<close>

definition search_call_fails :: "net_outcome \<Rightarrow> bool" where
  "search_call_fails out =
     (case out of
        Fails msg \<Rightarrow> True
      | Responds r \<Rightarrow>
          (case ending r of
             Complete \<Rightarrow> 400 \<le> status_code r \<and> status_code r < 600
           | Broken b \<Rightarrow> True
           | Stalled b \<Rightarrow> False)
      | NoAnswer \<Rightarrow> False)"

text \<open>The result entries of the provider's answer: what iterating its \<^verbatim>\<open>hits\<close> field gives.\<close>

definition response_entries :: "response \<Rightarrow> pyval list" where
  "response_entries r =
     (case json_body r of
        None \<Rightarrow> []
      | Some datos \<Rightarrow>
          (case getitem_str datos ''hits'' of
             Return hits \<Rightarrow> (case py_iter hits of Return es \<Rightarrow> es | _ \<Rightarrow> [])
           | _ \<Rightarrow> []))"

definition provider_entries :: "net_outcome \<Rightarrow> pyval list" where
  "provider_entries out = (case out of Responds r \<Rightarrow> response_entries r | _ \<Rightarrow> [])"

text \<open>
  The threads of a configuration as the calls they make, and the calls the method is to
  make for a list of URLs: the URL at index \<open>i\<close> with the file name for \<open>i\<close>.
\<close>

definition tasks :: "hilo list \<Rightarrow> (pyval \<times> string) list" where
  "tasks hs = map (\<lambda>h. (target_url h, target_nombre h)) hs"

definition expected_tasks :: "pyval list \<Rightarrow> (pyval \<times> string) list" where
  "expected_tasks us = map (\<lambda>i. (us ! i, nombre_archivo_de i)) [0..<length us]"

definition finished :: "hilo \<Rightarrow> bool" where
  "finished h = (case estado h of Finished r \<Rightarrow> True | _ \<Rightarrow> False)"

definition run_inv :: "network \<Rightarrow> string \<Rightarrow> int \<Rightarrow> state \<Rightarrow> config \<Rightarrow> bool" where
  "run_inv net q n s c =
     (case pc c of
        Searching \<Rightarrow> st c = s \<and> hilos c = []
      | Spawning i \<Rightarrow>
          fst (obtener_urls_imagenes net q n s) = Return (urls c) \<and> urls c \<noteq> [] \<and>
          i \<le> length (urls c) \<and> tasks (hilos c) = take i (expected_tasks (urls c))
      | Joining j \<Rightarrow>
          fst (obtener_urls_imagenes net q n s) = Return (urls c) \<and> urls c \<noteq> [] \<and>
          tasks (hilos c) = expected_tasks (urls c) \<and>
          j \<le> length (hilos c) \<and> (\<forall>k < j. finished (hilos c ! k))
      | Returned r \<Rightarrow>
          (\<forall>h \<in> set (hilos c). finished h) \<and>
          (case fst (obtener_urls_imagenes net q n s) of
             Return us \<Rightarrow> r = Return () \<and> tasks (hilos c) = expected_tasks us
           | Raise e \<Rightarrow> r = Raise e \<and> hilos c = []
           | Hang \<Rightarrow> False))"

text \<open>Three configurations of the method, named for the statements below.\<close>

definition no_results_config :: "state \<Rightarrow> config" where
  "no_results_config s1 =
     \<lparr>st = print_line msg_no_images s1, pc = Returned (Return ()), urls = [], hilos = []\<rparr>"

definition spawning_config :: "state \<Rightarrow> pyval list \<Rightarrow> nat \<Rightarrow> config" where
  "spawning_config s1 us i =
     \<lparr>st = s1, pc = Spawning i, urls = us, hilos = map (nuevo_hilo us) [0..<i]\<rparr>"

definition all_started_config :: "state \<Rightarrow> pyval list \<Rightarrow> config" where
  "all_started_config s1 us =
     \<lparr>st = s1, pc = Joining 0, urls = us, hilos = map (nuevo_hilo us) [0..<length us]\<rparr>"

text \<open>The two attributes of the instance are the same in both states.\<close>

definition same_attributes :: "state \<Rightarrow> state \<Rightarrow> bool" where
  "same_attributes s s' \<longleftrightarrow>
     api_key s' = api_key s \<and> directorio_imagenes s' = directorio_imagenes s"

text \<open>
  A network that answers every request: it fails it, or sends a response whose body
  does not stall.
\<close>

definition answers :: "network \<Rightarrow> bool" where
  "answers net \<longleftrightarrow>
     (\<forall>rq. case net rq of
              Fails msg \<Rightarrow> True
            | Responds r \<Rightarrow> (case ending r of Stalled b \<Rightarrow> False | _ \<Rightarrow> True)
            | NoAnswer \<Rightarrow> False)"

section \<open>Example inputs\<close>

text \<open>
  A file system with one directory, the working directory; a state before construction;
  a JSON response of the provider with two result entries.
\<close>

definition fs_example :: filesystem where
  "fs_example =
     \<lparr>nodes = (\<lambda>k. if k = [''home''] then Some Dir else None),
      writable = (\<lambda>k. True), cwd = [''home''], file_size_limit = None\<rparr>"

definition state_example :: state where
  "state_example =
     \<lparr>api_key = ''KEY'', directorio_imagenes = ''out'', fs = fs_example, stdout = [], sent = []\<rparr>"

definition json_response :: "nat \<Rightarrow> pyval \<Rightarrow> response" where
  "json_response code v =
     \<lparr>status_code = code, reason = ''R'', url = URL_BASE, content = [], json_body = Some v,
      ending = Complete\<rparr>"

definition hit :: "string \<Rightarrow> pyval" where
  "hit u = PDict [(''id'', PInt 7), (''largeImageURL'', PStr u)]"

definition two_hits :: pyval where
  "two_hits = PDict [(''total'', PInt 2), (''hits'', PList [hit ''http://x/a.jpg'', hit ''http://x/b.jpg''])]"

(* DEFS-END *)

section \<open>Outcomes and list comprehensions\<close>

lemma result_bind_Return_iff:
  "(result_bind m f = Return y) = (\<exists>x. m = Return x \<and> f x = Return y)"
  by (cases m) auto

lemma result_bind_Raise_iff:
  "(result_bind m f = Raise e) = (m = Raise e \<or> (\<exists>x. m = Return x \<and> f x = Raise e))"
  by (cases m) auto

lemma traverse_length: "traverse f xs = Return ys \<Longrightarrow> length ys = length xs"
proof (induction xs arbitrary: ys)
  case Nil
  then show ?case by simp
next
  case (Cons x xs)
  then show ?case
    by (cases "f x"; cases "traverse f xs") auto
qed

lemma traverse_nth:
  "traverse f xs = Return ys \<Longrightarrow> i < length xs \<Longrightarrow> f (xs ! i) = Return (ys ! i)"
proof (induction xs arbitrary: ys i)
  case Nil
  then show ?case by simp
next
  case (Cons x xs)
  then show ?case
    by (cases "f x"; cases "traverse f xs"; cases i) auto
qed

lemma traverse_all_return:
  "\<forall>x \<in> set xs. \<exists>y. f x = Return y \<Longrightarrow> \<exists>ys. traverse f xs = Return ys"
proof (induction xs)
  case Nil
  then show ?case by simp
next
  case (Cons x xs)
  then obtain y ys where "f x = Return y" "traverse f xs = Return ys" by auto
  then show ?case by simp
qed

lemma traverse_raises:
  assumes "\<forall>x \<in> set xs. (\<exists>y. f x = Return y) \<or> f x = Raise e"
    and "\<exists>x \<in> set xs. f x = Raise e"
  shows "traverse f xs = Raise e"
  using assms
proof (induction xs)
  case Nil
  then show ?case by simp
next
  case (Cons x xs)
  show ?case
  proof (cases "f x")
    case (Return y)
    with Cons.prems have "\<exists>x \<in> set xs. f x = Raise e" by auto
    with Cons have "traverse f xs = Raise e" by simp
    with Return show ?thesis by simp
  next
    case (Raise e')
    with Cons.prems show ?thesis by auto
  next
    case Hang
    with Cons.prems show ?thesis by auto
  qed
qed

section \<open>Search: what the request and the handler do\<close>

lemma requests_get_search:
  "requests_get net (PStr URL_BASE) (parametros s q n) False s =
     (case net (search_request s q n) of
        Fails msg \<Rightarrow> Raise (RequestException msg)
      | NoAnswer \<Rightarrow> Hang
      | Responds r \<Rightarrow>
          (case ending r of
             Complete \<Rightarrow> Return r
           | Broken b \<Rightarrow> Raise (ChunkedEncodingError ''Connection broken'')
           | Stalled b \<Rightarrow> Hang),
      s\<lparr>sent := sent s @ [search_request s q n]\<rparr>)"
  by (simp add: requests_get_def search_request_def Let_def split: net_outcome.splits stream_end.splits)

lemma obtener_urls_try_state:
  "snd (obtener_urls_try net q n s) = s\<lparr>sent := sent s @ [search_request s q n]\<rparr>"
  by (simp add: obtener_urls_try_def requests_get_search split: net_outcome.splits stream_end.splits)

lemma obtener_urls_try_result:
  "fst (obtener_urls_try net q n s) =
     (case net (search_request s q n) of
        Fails msg \<Rightarrow> Raise (RequestException msg)
      | NoAnswer \<Rightarrow> Hang
      | Responds r \<Rightarrow>
          (case ending r of
             Complete \<Rightarrow> extraer_urls r
           | Broken b \<Rightarrow> Raise (ChunkedEncodingError ''Connection broken'')
           | Stalled b \<Rightarrow> Hang))"
  by (simp add: obtener_urls_try_def requests_get_search split: net_outcome.splits stream_end.splits)

lemma obtener_urls_imagenes_alt:
  "obtener_urls_imagenes net q n s =
     (let s1 = s\<lparr>sent := sent s @ [search_request s q n]\<rparr>
      in case fst (obtener_urls_try net q n s) of
           Raise e \<Rightarrow>
             if is_RequestException e
             then (Return [], print_line (msg_error_api e) s1)
             else (Raise e, s1)
         | Return us \<Rightarrow> (Return us, s1)
         | Hang \<Rightarrow> (Hang, s1))"
proof -
  obtain r s1 where eq: "obtener_urls_try net q n s = (r, s1)" by (cases "obtener_urls_try net q n s")
  with obtener_urls_try_state [of net q n s] have "s1 = s\<lparr>sent := sent s @ [search_request s q n]\<rparr>" by simp
  with eq show ?thesis by (simp add: obtener_urls_imagenes_def Let_def split: result.splits)
qed

lemma extraer_urls_Return:
  "extraer_urls r = Return us \<Longrightarrow>
     raise_for_status r = Return () \<and>
     traverse (\<lambda>imagen. getitem_str imagen ''largeImageURL'') (response_entries r) = Return us"
  by (auto simp: extraer_urls_def response_entries_def response_json_def result_bind_Return_iff
      split: option.splits)

lemma extraer_urls_length: "extraer_urls r = Return us \<Longrightarrow> length us = length (response_entries r)"
  by (auto dest!: extraer_urls_Return traverse_length)

lemma handler_Return:
  "(case r of
      Return us \<Rightarrow> (Return us, s1)
    | Raise e \<Rightarrow> if is_RequestException e then (Return [], h e) else (Raise e, s1)
    | Hang \<Rightarrow> (Hang, s1)) = (Return us, s2) \<Longrightarrow> us = [] \<or> r = Return us"
  by (cases r) (simp_all split: if_splits)

lemma search_returns_cases:
  assumes "fst (obtener_urls_imagenes net q n s) = Return us"
  shows "us = [] \<or>
     (\<exists>r. net (search_request s q n) = Responds r \<and> ending r = Complete \<and> extraer_urls r = Return us)"
proof -
  obtain s2 where "obtener_urls_imagenes net q n s = (Return us, s2)"
    using assms by (cases "obtener_urls_imagenes net q n s") simp
  then have "us = [] \<or> fst (obtener_urls_try net q n s) = Return us"
    unfolding obtener_urls_imagenes_alt Let_def by (rule handler_Return)
  then show ?thesis
  proof
    assume "us = []" then show ?thesis ..
  next
    assume "fst (obtener_urls_try net q n s) = Return us"
    then show ?thesis
      by (simp add: obtener_urls_try_result split: net_outcome.splits stream_end.splits)
  qed
qed

lemma search_try_fails:
  assumes "search_call_fails (net (search_request s q n))"
  shows "\<exists>e. fst (obtener_urls_try net q n s) = Raise e \<and> is_RequestException e"
proof (cases "net (search_request s q n)")
  case (Fails msg)
  then show ?thesis by (simp add: obtener_urls_try_result)
next
  case (Responds r)
  show ?thesis
  proof (cases "ending r")
    case Complete
    with Responds assms have "400 \<le> status_code r \<and> status_code r < 600"
      by (simp add: search_call_fails_def)
    then have "extraer_urls r = Raise (HTTPError (http_error_msg r))"
      by (simp add: extraer_urls_def raise_for_status_def)
    with Responds Complete show ?thesis by (simp add: obtener_urls_try_result)
  next
    case (Broken b)
    with Responds show ?thesis by (simp add: obtener_urls_try_result)
  next
    case (Stalled b)
    with Responds assms show ?thesis by (simp add: search_call_fails_def)
  qed
next
  case NoAnswer
  with assms show ?thesis by (simp add: search_call_fails_def)
qed

lemma search_fails_returns_empty:
  assumes "search_call_fails (net (search_request s q n))"
  shows "\<exists>e. is_RequestException e \<and> obtener_urls_imagenes net q n s =
     (Return [], print_line (msg_error_api e) (s\<lparr>sent := sent s @ [search_request s q n]\<rparr>))"
proof -
  from assms search_try_fails [where net=net and s=s and q=q and n=n] obtain e
    where "fst (obtener_urls_try net q n s) = Raise e" "is_RequestException e" by blast
  then show ?thesis by (auto simp add: obtener_urls_imagenes_alt Let_def)
qed

lemma search_raise_not_request_exception:
  "fst (obtener_urls_imagenes net q n s) = Raise e \<Longrightarrow> \<not> is_RequestException e"
  by (cases "fst (obtener_urls_try net q n s)")
    (simp_all add: obtener_urls_imagenes_alt Let_def split: if_splits)

section \<open>The file system: paths, files and directories\<close>

lemma chunks_concat: "0 < n \<Longrightarrow> concat (chunks n xs) = xs"
proof (induction n xs rule: chunks.induct)
  case (1 n xs)
  then show ?case by (subst chunks.simps) auto
qed

lemma split_sep_nonempty: "split_sep p \<noteq> []"
  by (induction p) (auto split: list.splits)

lemma walk_append:
  "walk f cur (cs @ ds) = result_bind (walk f cur cs) (\<lambda>k. walk f k ds)"
  by (induction cs arbitrary: cur) (auto split: option.splits node.splits)

lemma walk_raises_OSError: "walk f cur cs = Raise e \<Longrightarrow> \<exists>n. e = OSError n"
  by (induction cs arbitrary: cur) (auto split: option.splits node.splits if_splits)

lemma walk_not_Hang: "walk f cur cs \<noteq> Hang"
  by (induction cs arbitrary: cur) (auto split: option.splits node.splits if_splits)

lemma open_wb_raises_OSError:
  assumes "open_wb f p = Raise e"
  shows "\<exists>n. e = OSError n"
proof (cases "walk f (start_dir f p) (butlast (split_sep p))")
  case (Return parent)
  with assms show ?thesis
    by (auto simp: open_wb_def Let_def split: if_splits option.splits node.splits)
next
  case (Raise e')
  with assms have "e = OSError ENOENT \<or> e = e'"
    by (auto simp: open_wb_def split: if_splits)
  with Raise show ?thesis by (auto dest: walk_raises_OSError)
next
  case Hang
  then show ?thesis by (simp add: walk_not_Hang)
qed

lemma open_wb_not_Hang: "open_wb f p \<noteq> Hang"
proof (cases "walk f (start_dir f p) (butlast (split_sep p))")
  case (Return parent)
  then show ?thesis
    by (auto simp: open_wb_def Let_def split: if_splits option.splits node.splits)
next
  case (Raise e')
  then show ?thesis by (auto simp: open_wb_def split: if_splits)
next
  case Hang
  then show ?thesis by (simp add: walk_not_Hang)
qed

lemma open_wb_Return:
  assumes "open_wb f p = Return (k, f1)"
  shows "f1 = f\<lparr>nodes := (nodes f)(k \<mapsto> File [])\<rparr> \<and> k \<noteq> [] \<and> lookup f k \<noteq> Some Dir \<and>
         p \<noteq> [] \<and> walk f (start_dir f p) (split_sep p) = Return k"
proof (cases "walk f (start_dir f p) (butlast (split_sep p))")
  case (Return parent)
  have sp: "split_sep p = butlast (split_sep p) @ [last (split_sep p)]"
    using split_sep_nonempty [of p] by simp
  from assms Return have p: "p \<noteq> []" and dir: "lookup f parent = Some Dir"
    and name: "last (split_sep p) \<noteq> []" "last (split_sep p) \<noteq> ''.''" "last (split_sep p) \<noteq> ''..''"
    and k: "k = parent @ [last (split_sep p)]"
    and f1: "f1 = f\<lparr>nodes := (nodes f)(k \<mapsto> File [])\<rparr>" and nd: "lookup f k \<noteq> Some Dir"
    by (auto simp: open_wb_def Let_def split: if_splits option.splits node.splits)
  have "walk f (start_dir f p) (split_sep p) =
        result_bind (walk f (start_dir f p) (butlast (split_sep p))) (\<lambda>k. walk f k [last (split_sep p)])"
    by (subst sp) (simp only: walk_append)
  also have "\<dots> = Return k" using Return dir name k by simp
  finally show ?thesis using p f1 nd k by simp
next
  case (Raise e')
  with assms show ?thesis by (auto simp: open_wb_def split: if_splits)
next
  case Hang
  then show ?thesis by (simp add: walk_not_Hang)
qed

lemma walk_after_file_update:
  assumes "lookup f k \<noteq> Some Dir" and "f' = f\<lparr>nodes := (nodes f)(k \<mapsto> File b)\<rparr>"
  shows "walk f cur cs = Return k' \<Longrightarrow> walk f' cur cs = Return k'"
proof (induction cs arbitrary: cur)
  case Nil
  then show ?case by simp
next
  case (Cons c cs)
  from Cons.prems have dir: "lookup f cur = Some Dir"
    by (auto split: option.splits node.splits)
  with assms(1) have "cur \<noteq> k" by auto
  with dir assms(2) have dir': "lookup f' cur = Some Dir"
    by (auto simp: lookup_def)
  from Cons.prems dir have "walk f (if c = [] \<or> c = ''.'' then cur else if c = ''..'' then butlast cur else cur @ [c]) cs = Return k'"
    by (auto split: if_splits)
  then have "walk f' (if c = [] \<or> c = ''.'' then cur else if c = ''..'' then butlast cur else cur @ [c]) cs = Return k'"
    by (rule Cons.IH)
  with dir' show ?case by auto
qed

lemma file_write_raises_OSError: "file_write f k bs = (Raise e, f1) \<Longrightarrow> e = OSError EFBIG \<and> f1 = f"
  by (auto simp: file_write_def split: option.splits node.splits if_splits)

lemma file_write_not_Hang: "fst (file_write f k bs) \<noteq> Hang"
  by (auto simp: file_write_def split: option.splits node.splits if_splits)

lemma file_write_Return:
  "file_write f k bs = (Return (), f1) \<Longrightarrow> nodes f k = Some (File old) \<Longrightarrow>
     f1 = f\<lparr>nodes := (nodes f)(k \<mapsto> File (old @ bs))\<rparr>"
  by (auto simp: file_write_def split: option.splits node.splits if_splits)

lemma write_all_raises_OSError: "write_all f k cs = (Raise e, f1) \<Longrightarrow> \<exists>n. e = OSError n"
proof (induction cs arbitrary: f)
  case Nil
  then show ?case by simp
next
  case (Cons c cs)
  obtain r f2 where fw: "file_write f k c = (r, f2)" by (cases "file_write f k c")
  show ?case
  proof (cases r)
    case (Return u)
    with fw Cons show ?thesis by simp
  next
    case (Raise e')
    with fw Cons.prems show ?thesis by (auto dest: file_write_raises_OSError)
  next
    case Hang
    with fw Cons.prems show ?thesis by simp
  qed
qed

lemma write_all_not_Hang: "fst (write_all f k cs) \<noteq> Hang"
proof (induction cs arbitrary: f)
  case Nil
  then show ?case by simp
next
  case (Cons c cs)
  obtain r f2 where fw: "file_write f k c = (r, f2)" by (cases "file_write f k c")
  with file_write_not_Hang [of f k c] have "r \<noteq> Hang" by simp
  with fw Cons show ?case by (cases r) simp_all
qed

lemma write_all_Return:
  "write_all f k cs = (Return (), f1) \<Longrightarrow> nodes f k = Some (File old) \<Longrightarrow>
     f1 = f\<lparr>nodes := (nodes f)(k \<mapsto> File (old @ concat cs))\<rparr>"
proof (induction cs arbitrary: f old)
  case Nil
  then show ?case by (simp add: fun_upd_idem)
next
  case (Cons c cs)
  obtain r f2 where fw: "file_write f k c = (r, f2)" by (cases "file_write f k c")
  show ?case
  proof (cases r)
    case (Return u)
    with fw Cons.prems(2) have f2: "f2 = f\<lparr>nodes := (nodes f)(k \<mapsto> File (old @ c))\<rparr>"
      by (auto dest: file_write_Return)
    then have "nodes f2 k = Some (File (old @ c))" by simp
    moreover from fw Return Cons.prems(1) have "write_all f2 k cs = (Return (), f1)" by simp
    ultimately have f1: "f1 = f2\<lparr>nodes := (nodes f2)(k \<mapsto> File ((old @ c) @ concat cs))\<rparr>"
      by (rule Cons.IH [rotated])
    have n2: "nodes f2 = (nodes f)(k \<mapsto> File (old @ c))" by (simp add: f2)
    have upd: "f2\<lparr>nodes := X\<rparr> = f\<lparr>nodes := X\<rparr>" for X by (simp add: f2)
    show ?thesis unfolding f1 n2 upd by (simp only: fun_upd_upd concat.simps append_assoc)
  next
    case (Raise e')
    with fw Cons.prems show ?thesis by simp
  next
    case Hang
    with fw Cons.prems show ?thesis by simp
  qed
qed

lemma makedirs_walk_frame:
  "makedirs_walk f cur cs = Return f' \<Longrightarrow>
     writable f' = writable f \<and> cwd f' = cwd f \<and> file_size_limit f' = file_size_limit f"
proof (induction cs arbitrary: f cur)
  case Nil
  then show ?case by (auto split: option.splits node.splits)
next
  case (Cons c cs)
  from Cons.prems have dir: "lookup f cur = Some Dir"
    by (auto split: option.splits node.splits)
  show ?case
  proof (cases "c = [] \<or> c = ''.''")
    case True
    with Cons.prems dir have "makedirs_walk f cur cs = Return f'" by auto
    then show ?thesis by (rule Cons.IH)
  next
    case triv: False
    show ?thesis
    proof (cases "c = ''..''")
      case True
      with Cons.prems dir have "makedirs_walk f (butlast cur) cs = Return f'" by simp
      then show ?thesis by (rule Cons.IH)
    next
      case False
      show ?thesis
      proof (cases "lookup f (cur @ [c])")
        case None
        with Cons.prems dir triv False
        have "makedirs_walk (f\<lparr>nodes := (nodes f)(cur @ [c] \<mapsto> Dir)\<rparr>) (cur @ [c]) cs = Return f'"
          by (auto split: if_splits)
        from Cons.IH [OF this] show ?thesis by simp
      next
        case (Some x)
        with Cons.prems dir triv False have "makedirs_walk f (cur @ [c]) cs = Return f'" by auto
        then show ?thesis by (rule Cons.IH)
      qed
    qed
  qed
qed

lemma makedirs_walk_mono:
  "makedirs_walk f cur cs = Return f' \<Longrightarrow> lookup f k = Some x \<Longrightarrow> lookup f' k = Some x"
proof (induction cs arbitrary: f cur)
  case Nil
  then show ?case by (auto split: option.splits node.splits)
next
  case (Cons c cs)
  from Cons.prems have dir: "lookup f cur = Some Dir"
    by (auto split: option.splits node.splits)
  show ?case
  proof (cases "c = [] \<or> c = ''.''")
    case True
    with Cons.prems dir have "makedirs_walk f cur cs = Return f'" by auto
    then show ?thesis using Cons.prems(2) by (rule Cons.IH)
  next
    case triv: False
    show ?thesis
    proof (cases "c = ''..''")
      case True
      with Cons.prems dir have "makedirs_walk f (butlast cur) cs = Return f'" by simp
      then show ?thesis using Cons.prems(2) by (rule Cons.IH)
    next
      case False
      show ?thesis
      proof (cases "lookup f (cur @ [c])")
        case None
        let ?f1 = "f\<lparr>nodes := (nodes f)(cur @ [c] \<mapsto> Dir)\<rparr>"
        from None Cons.prems dir triv False
        have mk: "makedirs_walk ?f1 (cur @ [c]) cs = Return f'"
          by (auto split: if_splits)
        from None Cons.prems(2) have "k \<noteq> cur @ [c]" by auto
        with Cons.prems(2) have "lookup ?f1 k = Some x" by (auto simp: lookup_def)
        with mk show ?thesis by (rule Cons.IH)
      next
        case (Some y)
        with Cons.prems dir triv False have "makedirs_walk f (cur @ [c]) cs = Return f'" by auto
        then show ?thesis using Cons.prems(2) by (rule Cons.IH)
      qed
    qed
  qed
qed

lemma makedirs_walk_resolves:
  "makedirs_walk f cur cs = Return f' \<Longrightarrow> \<exists>k. walk f' cur cs = Return k \<and> lookup f' k = Some Dir"
proof (induction cs arbitrary: f cur)
  case Nil
  then show ?case by (auto split: option.splits node.splits)
next
  case (Cons c cs)
  from Cons.prems have dir: "lookup f cur = Some Dir"
    by (auto split: option.splits node.splits)
  with Cons.prems have dir': "lookup f' cur = Some Dir" by (rule makedirs_walk_mono)
  show ?case
  proof (cases "c = [] \<or> c = ''.''")
    case True
    with Cons.prems dir have "makedirs_walk f cur cs = Return f'" by auto
    from Cons.IH [OF this] True dir' show ?thesis by auto
  next
    case triv: False
    show ?thesis
    proof (cases "c = ''..''")
      case True
      with Cons.prems dir have "makedirs_walk f (butlast cur) cs = Return f'" by simp
      from Cons.IH [OF this] True dir' show ?thesis by simp
    next
      case False
      show ?thesis
      proof (cases "lookup f (cur @ [c])")
        case None
        with Cons.prems dir triv False
        have "makedirs_walk (f\<lparr>nodes := (nodes f)(cur @ [c] \<mapsto> Dir)\<rparr>) (cur @ [c]) cs = Return f'"
          by (auto split: if_splits)
        from Cons.IH [OF this] triv False dir' show ?thesis by simp
      next
        case (Some y)
        with Cons.prems dir triv False have "makedirs_walk f (cur @ [c]) cs = Return f'" by auto
        from Cons.IH [OF this] triv False dir' show ?thesis by simp
      qed
    qed
  qed
qed

lemma makedirs_walk_idem:
  "makedirs_walk f cur cs = Return f' \<Longrightarrow> makedirs_walk f' cur cs = Return f'"
proof (induction cs arbitrary: f cur)
  case Nil
  then show ?case by (auto split: option.splits node.splits)
next
  case (Cons c cs)
  from Cons.prems have dir: "lookup f cur = Some Dir"
    by (auto split: option.splits node.splits)
  with Cons.prems have dir': "lookup f' cur = Some Dir" by (rule makedirs_walk_mono)
  show ?case
  proof (cases "c = [] \<or> c = ''.''")
    case True
    with Cons.prems dir have "makedirs_walk f cur cs = Return f'" by auto
    from Cons.IH [OF this] True dir' show ?thesis by auto
  next
    case triv: False
    show ?thesis
    proof (cases "c = ''..''")
      case True
      with Cons.prems dir have "makedirs_walk f (butlast cur) cs = Return f'" by simp
      from Cons.IH [OF this] True dir' show ?thesis by simp
    next
      case False
      show ?thesis
      proof (cases "lookup f (cur @ [c])")
        case None
        let ?f1 = "f\<lparr>nodes := (nodes f)(cur @ [c] \<mapsto> Dir)\<rparr>"
        from None Cons.prems dir triv False
        have mk: "makedirs_walk ?f1 (cur @ [c]) cs = Return f'"
          by (auto split: if_splits)
        have "lookup ?f1 (cur @ [c]) = Some Dir" by (simp add: lookup_def)
        with mk have "lookup f' (cur @ [c]) = Some Dir" by (rule makedirs_walk_mono)
        with Cons.IH [OF mk] triv False dir' show ?thesis by simp
      next
        case (Some y)
        with Cons.prems dir triv False have mk: "makedirs_walk f (cur @ [c]) cs = Return f'" by auto
        from mk Some have "lookup f' (cur @ [c]) = Some y" by (rule makedirs_walk_mono)
        with Cons.IH [OF mk] triv False dir' show ?thesis by simp
      qed
    qed
  qed
qed

lemma start_dir_cwd: "cwd f' = cwd f \<Longrightarrow> start_dir f' p = start_dir f p"
  by (simp add: start_dir_def split: list.splits)

lemma os_makedirs_isdir: "os_makedirs f p = Return f' \<Longrightarrow> isdir f' p"
proof -
  assume a: "os_makedirs f p = Return f'"
  then have p: "p \<noteq> []" and mk: "makedirs_walk f (start_dir f p) (split_sep p) = Return f'"
    by (auto simp: os_makedirs_def split: if_splits)
  from makedirs_walk_frame [OF mk] have "start_dir f' p = start_dir f p" by (intro start_dir_cwd) simp
  moreover from makedirs_walk_resolves [OF mk] obtain k
    where "walk f' (start_dir f p) (split_sep p) = Return k" "lookup f' k = Some Dir" by blast
  ultimately show ?thesis using p by (simp add: isdir_def resolve_def)
qed

lemma os_makedirs_idem: "os_makedirs f p = Return f' \<Longrightarrow> os_makedirs f' p = Return f'"
proof -
  assume a: "os_makedirs f p = Return f'"
  then have p: "p \<noteq> []" and mk: "makedirs_walk f (start_dir f p) (split_sep p) = Return f'"
    by (auto simp: os_makedirs_def split: if_splits)
  from makedirs_walk_frame [OF mk] have "start_dir f' p = start_dir f p" by (intro start_dir_cwd) simp
  with makedirs_walk_idem [OF mk] p show ?thesis by (simp add: os_makedirs_def)
qed

lemma os_makedirs_keeps: "os_makedirs f p = Return f' \<Longrightarrow> lookup f k = Some x \<Longrightarrow> lookup f' k = Some x"
  by (auto simp: os_makedirs_def split: if_splits dest: makedirs_walk_mono)

lemma walk_Dir_start:
  "walk f cur cs = Return k \<Longrightarrow> lookup f k = Some Dir \<Longrightarrow> lookup f cur = Some Dir"
  by (cases cs) (auto split: option.splits node.splits)

lemma makedirs_walk_when_dir:
  "walk f cur cs = Return k \<Longrightarrow> lookup f k = Some Dir \<Longrightarrow> makedirs_walk f cur cs = Return f"
proof (induction cs arbitrary: cur)
  case Nil
  then show ?case by simp
next
  case (Cons c cs)
  from Cons.prems have dir: "lookup f cur = Some Dir" by (rule walk_Dir_start)
  let ?next = "if c = [] \<or> c = ''.'' then cur else if c = ''..'' then butlast cur else cur @ [c]"
  from Cons.prems(1) dir have w: "walk f ?next cs = Return k" by (auto split: if_splits)
  then have mk: "makedirs_walk f ?next cs = Return f" using Cons.prems(2) by (rule Cons.IH)
  from w Cons.prems(2) have "lookup f ?next = Some Dir" by (rule walk_Dir_start)
  with mk dir show ?case by (auto split: if_splits)
qed

lemma os_makedirs_when_isdir:
  assumes "isdir f p"
  shows "os_makedirs f p = Return f"
proof -
  from assms have p: "p \<noteq> []"
    by (auto simp: isdir_def resolve_def split: if_splits)
  with assms obtain k where "walk f (start_dir f p) (split_sep p) = Return k" "lookup f k = Some Dir"
    by (cases "walk f (start_dir f p) (split_sep p)") (simp_all add: isdir_def resolve_def)
  then have "makedirs_walk f (start_dir f p) (split_sep p) = Return f"
    by (rule makedirs_walk_when_dir)
  with p show ?thesis by (simp add: os_makedirs_def)
qed

section \<open>Fetch: the try block and the handler\<close>

lemma requests_get_fetch:
  "requests_get net (PStr target) [] True s =
     (case net (fetch_request target) of
        Fails msg \<Rightarrow> Raise (RequestException msg)
      | NoAnswer \<Rightarrow> Hang
      | Responds r \<Rightarrow> Return r,
      s\<lparr>sent := sent s @ [fetch_request target]\<rparr>)"
  by (simp add: requests_get_def fetch_request_def Let_def split: net_outcome.splits)

lemma requests_get_not_str:
  "\<forall>target. u \<noteq> PStr target \<Longrightarrow>
     requests_get net u ps stream s = (Raise (RequestException ''Invalid URL: No scheme supplied''), s)"
  by (cases u) (simp_all add: requests_get_def)

lemma requests_get_Return:
  assumes "requests_get net u [] True s = (Return r, s1)"
  shows "\<exists>target. u = PStr target \<and> net (fetch_request target) = Responds r \<and>
           s1 = s\<lparr>sent := sent s @ [fetch_request target]\<rparr>"
proof (cases "\<exists>target. u = PStr target")
  case True
  then obtain target where u: "u = PStr target" ..
  with assms show ?thesis
    by (auto simp: requests_get_fetch split: net_outcome.splits)
next
  case False
  then have "\<forall>target. u \<noteq> PStr target" by simp
  from requests_get_not_str [OF this] assms show ?thesis by simp
qed

lemma requests_get_Raise:
  "requests_get net u ps stream s = (Raise e, s1) \<Longrightarrow> is_RequestException e"
  by (cases u)
    (auto simp: requests_get_def Let_def split: net_outcome.splits stream_end.splits if_splits)

lemma raise_for_status_Raise: "raise_for_status r = Raise e \<Longrightarrow> is_RequestException e"
  by (auto simp: raise_for_status_def split: if_splits)

lemma raise_for_status_not_Hang: "raise_for_status r \<noteq> Hang"
  by (simp add: raise_for_status_def)

lemma escribir_fragmentos_Return:
  assumes "escribir_fragmentos f k r = (Return (), f2)"
  shows "ending r = Complete \<and> write_all f k (chunks 8192 (content r)) = (Return (), f2)"
proof -
  obtain w f1 where w: "write_all f k (fst (iter_content 8192 r)) = (w, f1)"
    by (cases "write_all f k (fst (iter_content 8192 r))")
  with assms have "w = Return ()" and "f1 = f2" and "snd (iter_content 8192 r) = Return ()"
    by (cases w; simp add: escribir_fragmentos_def)+
  with w show ?thesis
    by (cases "ending r") (simp_all add: iter_content_def)
qed

text \<open>The try block, opened up: what each line's outcome does to the whole.\<close>

lemma descargar_try_unfold:
  assumes "requests_get net u [] True s = (Return r, s1)" and "raise_for_status r = Return ()"
  shows "descargar_try net u nombre s =
     (case open_wb (fs s1) (os_path_join (directorio_imagenes s1) nombre) of
        Return (archivo, f1) \<Rightarrow>
          (case escribir_fragmentos f1 archivo r of
             (Return _, f2) \<Rightarrow> (Return (), print_line (msg_descarga_completada nombre) (s1\<lparr>fs := f2\<rparr>))
           | (Raise e, f2) \<Rightarrow> (Raise e, s1\<lparr>fs := f2\<rparr>)
           | (Hang, f2) \<Rightarrow> (Hang, s1\<lparr>fs := f2\<rparr>))
      | Raise e \<Rightarrow> (Raise e, s1)
      | Hang \<Rightarrow> (Hang, s1))"
  using assms by (simp add: descargar_try_def Let_def)

lemma descargar_try_Return:
  assumes "fst (descargar_try net u nombre s) = Return ()"
  shows "\<exists>target r k.
     u = PStr target \<and> net (fetch_request target) = Responds r \<and> ending r = Complete \<and>
     \<not> (400 \<le> status_code r \<and> status_code r < 600) \<and>
     open_wb (fs s) (os_path_join (directorio_imagenes s) nombre) =
       Return (k, (fs s)\<lparr>nodes := (nodes (fs s))(k \<mapsto> File [])\<rparr>) \<and>
     descargar_try net u nombre s =
       (Return (),
        print_line (msg_descarga_completada nombre)
          (s\<lparr>sent := sent s @ [fetch_request target],
             fs := (fs s)\<lparr>nodes := (nodes (fs s))(k \<mapsto> File (content r))\<rparr>\<rparr>))"
proof -
  obtain g s1 where g: "requests_get net u [] True s = (g, s1)"
    by (cases "requests_get net u [] True s")
  with assms obtain r where r: "g = Return r"
    by (cases g) (simp_all add: descargar_try_def)
  from g r requests_get_Return obtain target where u: "u = PStr target"
    and net: "net (fetch_request target) = Responds r"
    and s1: "s1 = s\<lparr>sent := sent s @ [fetch_request target]\<rparr>" by blast
  from g r assms have st: "raise_for_status r = Return ()"
    by (cases "raise_for_status r") (simp_all add: descargar_try_def)
  then have code: "\<not> (400 \<le> status_code r \<and> status_code r < 600)"
    by (auto simp: raise_for_status_def split: if_splits)
  let ?ruta = "os_path_join (directorio_imagenes s1) nombre"
  note unf = descargar_try_unfold [OF g [unfolded r] st, of nombre]
  from assms unf obtain k f1 where op: "open_wb (fs s1) ?ruta = Return (k, f1)"
    by (cases "open_wb (fs s1) ?ruta") auto
  from open_wb_Return [OF op] have f1: "f1 = (fs s1)\<lparr>nodes := (nodes (fs s1))(k \<mapsto> File [])\<rparr>"
    by simp
  obtain w f2 where w: "escribir_fragmentos f1 k r = (w, f2)"
    by (cases "escribir_fragmentos f1 k r")
  with assms unf op have wr: "w = Return ()" by (cases w) simp_all
  from escribir_fragmentos_Return [OF w [unfolded wr]]
  have compl: "ending r = Complete" and wa: "write_all f1 k (chunks 8192 (content r)) = (Return (), f2)"
    by simp_all
  have "nodes f1 k = Some (File [])" by (simp add: f1)
  from write_all_Return [OF wa this]
  have "f2 = f1\<lparr>nodes := (nodes f1)(k \<mapsto> File (concat (chunks 8192 (content r))))\<rparr>" by simp
  then have f2: "f2 = (fs s)\<lparr>nodes := (nodes (fs s))(k \<mapsto> File (content r))\<rparr>"
    by (simp add: f1 s1 chunks_concat)
  from unf op w wr have "descargar_try net u nombre s =
      (Return (), print_line (msg_descarga_completada nombre) (s1\<lparr>fs := f2\<rparr>))" by simp
  with u net compl code op f1 f2 s1 show ?thesis by simp
qed

lemma requests_get_stdout: "stdout (snd (requests_get net u ps stream s)) = stdout s"
  by (cases u)
    (auto simp: requests_get_def Let_def split: net_outcome.splits stream_end.splits)

lemma requests_get_state:
  "requests_get net u ps stream s = (g, s1) \<Longrightarrow>
     stdout s1 = stdout s \<and> fs s1 = fs s \<and> api_key s1 = api_key s \<and>
     directorio_imagenes s1 = directorio_imagenes s"
  by (cases u)
    (auto simp: requests_get_def Let_def split: net_outcome.splits stream_end.splits if_splits)

lemma descargar_try_stdout:
  "stdout (snd (descargar_try net u nombre s)) =
     (if fst (descargar_try net u nombre s) = Return ()
      then stdout s @ [msg_descarga_completada nombre] else stdout s)"
proof -
  obtain g s1 where g: "requests_get net u [] True s = (g, s1)"
    by (cases "requests_get net u [] True s")
  then have s1: "stdout s1 = stdout s" by (simp add: requests_get_state)
  show ?thesis
  proof (cases "\<exists>r. g = Return r \<and> raise_for_status r = Return ()")
    case False
    with g s1 show ?thesis
      by (cases g; cases "raise_for_status (case g of Return r \<Rightarrow> r)")
        (auto simp: descargar_try_def)
  next
    case True
    then obtain r where r: "g = Return r" "raise_for_status r = Return ()" by blast
    note unf = descargar_try_unfold [OF g [unfolded r(1)] r(2), of nombre]
    show ?thesis
    proof (cases "open_wb (fs s1) (os_path_join (directorio_imagenes s1) nombre)")
      case (Return kf)
      obtain k f1 where kf: "kf = (k, f1)" by (cases kf)
      obtain w f2 where w: "escribir_fragmentos f1 k r = (w, f2)"
        by (cases "escribir_fragmentos f1 k r")
      with unf Return kf s1 show ?thesis
        by (cases w) (simp_all add: print_line_def)
    next
      case (Raise e)
      with unf s1 show ?thesis by simp
    next
      case Hang
      with unf s1 show ?thesis by simp
    qed
  qed
qed

lemma msgs_differ:
  "msg_descarga_completada n \<noteq> msg_error_descargando n' e"
  "msg_error_descargando n' e \<noteq> msg_descarga_completada n"
  by (simp_all add: msg_descarga_completada_def msg_error_descargando_def)

lemma descargar_imagen_alt:
  "descargar_imagen net u nombre s =
     (case fst (descargar_try net u nombre s) of
        Raise e \<Rightarrow>
          if is_RequestException e
          then (Return (), print_line (msg_error_descargando nombre e) (snd (descargar_try net u nombre s)))
          else (Raise e, snd (descargar_try net u nombre s))
      | Return x \<Rightarrow> (Return x, snd (descargar_try net u nombre s))
      | Hang \<Rightarrow> (Hang, snd (descargar_try net u nombre s)))"
  by (cases "descargar_try net u nombre s")
    (simp add: descargar_imagen_def split: result.splits)

lemma fetch_completed_iff:
  "stdout (snd (descargar_imagen net u nombre s)) = stdout s @ [msg_descarga_completada nombre]
     \<longleftrightarrow> fst (descargar_try net u nombre s) = Return ()"
  by (cases "fst (descargar_try net u nombre s)")
    (auto simp: descargar_imagen_alt descargar_try_stdout print_line_def msgs_differ)

lemma fetch_raise_not_request_exception:
  "fst (descargar_imagen net u nombre s) = Raise e \<Longrightarrow> \<not> is_RequestException e"
  by (cases "fst (descargar_try net u nombre s)")
    (simp_all add: descargar_imagen_alt split: if_splits)

theorem fetch_writes_body:
  assumes "stdout (snd (descargar_imagen net u nombre s)) = stdout s @ [msg_descarga_completada nombre]"
  shows "\<exists>target r k s'.
     descargar_imagen net u nombre s = (Return (), s') \<and>
     u = PStr target \<and> net (fetch_request target) = Responds r \<and>
     concat (fst (iter_content 8192 r)) = content r \<and>
     resolve (fs s) (os_path_join (directorio_imagenes s) nombre) = Return k \<and>
     lookup (fs s) k \<noteq> Some Dir \<and>
     file_at (fs s') (os_path_join (directorio_imagenes s) nombre) = Some (content r) \<and>
     nodes (fs s') = (nodes (fs s))(k \<mapsto> File (content r))"
proof -
  let ?ruta = "os_path_join (directorio_imagenes s) nombre"
  from assms have ok: "fst (descargar_try net u nombre s) = Return ()"
    by (simp add: fetch_completed_iff)
  from descargar_try_Return [OF ok] obtain target r k where u: "u = PStr target"
    and net: "net (fetch_request target) = Responds r" and compl: "ending r = Complete"
    and op: "open_wb (fs s) ?ruta = Return (k, (fs s)\<lparr>nodes := (nodes (fs s))(k \<mapsto> File [])\<rparr>)"
    and tr: "descargar_try net u nombre s =
       (Return (),
        print_line (msg_descarga_completada nombre)
          (s\<lparr>sent := sent s @ [fetch_request target],
             fs := (fs s)\<lparr>nodes := (nodes (fs s))(k \<mapsto> File (content r))\<rparr>\<rparr>))"
    by blast
  define s' where "s' = print_line (msg_descarga_completada nombre)
          (s\<lparr>sent := sent s @ [fetch_request target],
             fs := (fs s)\<lparr>nodes := (nodes (fs s))(k \<mapsto> File (content r))\<rparr>\<rparr>)"
  have fs': "fs s' = (fs s)\<lparr>nodes := (nodes (fs s))(k \<mapsto> File (content r))\<rparr>"
    by (simp add: s'_def print_line_def)
  from tr have di: "descargar_imagen net u nombre s = (Return (), s')"
    by (simp add: descargar_imagen_alt s'_def)
  from open_wb_Return [OF op] have k: "k \<noteq> []" and nd: "lookup (fs s) k \<noteq> Some Dir"
    and p: "?ruta \<noteq> []" and wk: "walk (fs s) (start_dir (fs s) ?ruta) (split_sep ?ruta) = Return k"
    by simp_all
  from p wk have res: "resolve (fs s) ?ruta = Return k" by (simp add: resolve_def)
  have sd: "start_dir (fs s') ?ruta = start_dir (fs s) ?ruta"
    by (simp add: start_dir_def fs' split: list.splits)
  from walk_after_file_update [OF nd fs' wk] p sd have "resolve (fs s') ?ruta = Return k"
    by (simp add: resolve_def)
  moreover from k have "lookup (fs s') k = Some (File (content r))"
    by (simp add: lookup_def fs')
  ultimately have fa: "file_at (fs s') ?ruta = Some (content r)"
    by (simp add: file_at_def)
  from compl have "concat (fst (iter_content 8192 r)) = content r"
    by (simp add: iter_content_def chunks_concat)
  with di u net res nd fa fs' show ?thesis by auto
qed

theorem fetch_os_error_propagates:
  assumes "net (fetch_request target) = Responds r"
    and "\<not> (400 \<le> status_code r \<and> status_code r < 600)"
    and "open_wb (fs s) (os_path_join (directorio_imagenes s) nombre) = Raise e \<or>
         (\<exists>k f1 f2. open_wb (fs s) (os_path_join (directorio_imagenes s) nombre) = Return (k, f1) \<and>
            write_all f1 k (fst (iter_content 8192 r)) = (Raise e, f2))"
  shows "\<exists>s'. descargar_imagen net (PStr target) nombre s = (Raise e, s') \<and>
           stdout s' = stdout s \<and> \<not> is_RequestException e"
proof -
  let ?s1 = "s\<lparr>sent := sent s @ [fetch_request target]\<rparr>"
  from assms(1) have g: "requests_get net (PStr target) [] True s = (Return r, ?s1)"
    by (simp add: requests_get_fetch)
  from assms(2) have st: "raise_for_status r = Return ()" by (simp add: raise_for_status_def)
  note unf = descargar_try_unfold [OF g st, of nombre]
  from assms(3) have "(\<exists>n. e = OSError n) \<and> (\<exists>s2. descargar_try net (PStr target) nombre s = (Raise e, s2) \<and> stdout s2 = stdout s)"
  proof
    assume op: "open_wb (fs s) (os_path_join (directorio_imagenes s) nombre) = Raise e"
    with unf have "descargar_try net (PStr target) nombre s = (Raise e, ?s1)" by simp
    with open_wb_raises_OSError [OF op] show ?thesis by simp
  next
    assume "\<exists>k f1 f2. open_wb (fs s) (os_path_join (directorio_imagenes s) nombre) = Return (k, f1) \<and>
            write_all f1 k (fst (iter_content 8192 r)) = (Raise e, f2)"
    then obtain k f1 f2 where op: "open_wb (fs s) (os_path_join (directorio_imagenes s) nombre) = Return (k, f1)"
      and wa: "write_all f1 k (fst (iter_content 8192 r)) = (Raise e, f2)" by blast
    from wa have "escribir_fragmentos f1 k r = (Raise e, f2)" by (simp add: escribir_fragmentos_def)
    with unf op have "descargar_try net (PStr target) nombre s = (Raise e, ?s1\<lparr>fs := f2\<rparr>)" by simp
    with write_all_raises_OSError [OF wa] show ?thesis by simp
  qed
  then obtain n s2 where "e = OSError n" "descargar_try net (PStr target) nombre s = (Raise e, s2)"
    "stdout s2 = stdout s" by blast
  then show ?thesis by (simp add: descargar_imagen_alt)
qed

section \<open>Run: the invariant of the interleavings\<close>

lemma tasks_update:
  "j < length hs \<Longrightarrow> tasks (hs[j := (hs ! j)\<lparr>estado := e\<rparr>]) = tasks hs"
  by (simp add: tasks_def map_update list_update_same_conv)

lemma tasks_append: "tasks (hs @ [nuevo_hilo us i]) = tasks hs @ [(us ! i, nombre_archivo_de i)]"
  by (simp add: tasks_def nuevo_hilo_def)

lemma expected_tasks_take_Suc:
  "i < length us \<Longrightarrow>
     take (Suc i) (expected_tasks us) = take i (expected_tasks us) @ [(us ! i, nombre_archivo_de i)]"
  by (simp add: expected_tasks_def take_Suc_conv_app_nth)

lemma expected_tasks_length: "length (expected_tasks us) = length us"
  by (simp add: expected_tasks_def)

lemma tasks_length: "length (tasks hs) = length hs"
  by (simp add: tasks_def)

lemma expected_tasks_Nil: "expected_tasks [] = []"
  by (simp add: expected_tasks_def)

lemma tasks_Nil_iff: "tasks hs = [] \<longleftrightarrow> hs = []"
  by (simp add: tasks_def)

lemma running_not_finished: "estado h = Running \<Longrightarrow> \<not> finished h"
  by (simp add: finished_def)

lemma finished_update:
  assumes "j < length hs" and "estado (hs ! j) = Running" and "k < length hs" and "finished (hs ! k)"
  shows "finished (hs[j := (hs ! j)\<lparr>estado := e\<rparr>] ! k)"
proof -
  from assms(2,4) have "k \<noteq> j" by (auto simp: finished_def)
  with assms show ?thesis by simp
qed

lemma run_inv_init: "run_inv net q n s (init_config s)"
  by (simp add: run_inv_def init_config_def)

lemma thread_step_inv:
  assumes inv: "run_inv net q n s c" and j: "j < length (hilos c)"
    and run: "estado (hilos c ! j) = Running"
  shows "run_inv net q n s (c\<lparr>st := s1, hilos := (hilos c)[j := (hilos c ! j)\<lparr>estado := e\<rparr>]\<rparr>)"
proof (cases "pc c")
  case Searching
  with inv j show ?thesis by (simp add: run_inv_def)
next
  case (Spawning i)
  with inv j show ?thesis by (simp add: run_inv_def tasks_update)
next
  case (Joining i)
  with inv j run show ?thesis
    by (auto simp: run_inv_def tasks_update intro: finished_update)
next
  case (Returned r)
  with inv have "\<forall>h \<in> set (hilos c). finished h" by (simp add: run_inv_def)
  with j have "finished (hilos c ! j)" by simp
  with run show ?thesis by (simp add: finished_def)
qed

lemma run_step_inv:
  assumes "run_step net q n c c'" and "run_inv net q n s c"
  shows "run_inv net q n s c'"
  using assms
proof (induction rule: run_step.induct)
  case (search_empty c s1)
  then show ?case by (simp add: run_inv_def expected_tasks_Nil tasks_def)
next
  case (search_found c us s1)
  then show ?case by (simp add: run_inv_def tasks_def)
next
  case (search_raises c e s1)
  then show ?case by (simp add: run_inv_def)
next
  case (spawn c i)
  then show ?case by (simp add: run_inv_def tasks_append expected_tasks_take_Suc)
next
  case (spawned c i)
  then show ?case by (simp add: run_inv_def expected_tasks_length)
next
  case (thread_runs j c r s1)
  then show ?case by (simp add: thread_step_inv)
next
  case (thread_blocks j c s1)
  then show ?case by (simp add: thread_step_inv)
next
  case (join c j r)
  then show ?case by (auto simp: run_inv_def less_Suc_eq finished_def)
next
  case (all_joined c j)
  then have "j = length (hilos c)" and "\<forall>k < j. finished (hilos c ! k)"
    by (auto simp: run_inv_def)
  then have "\<forall>h \<in> set (hilos c). finished h" by (auto simp: in_set_conv_nth)
  with all_joined show ?case by (simp add: run_inv_def)
qed

lemma reachable_inv: "reachable net q n s c \<Longrightarrow> run_inv net q n s c"
  by (induction rule: reachable.induct) (auto intro: run_inv_init run_step_inv)

lemma step_from_init_empty:
  assumes "run_step net q n (init_config s) c'"
    and "obtener_urls_imagenes net q n s = (Return [], s1)"
  shows "c' = no_results_config s1"
  using assms
  by (cases rule: run_step.cases) (simp_all add: init_config_def no_results_config_def)

lemma no_step_from_no_results: "\<not> run_step net q n (no_results_config s1) c'"
proof
  assume "run_step net q n (no_results_config s1) c'"
  then show False
    by (cases rule: run_step.cases) (simp_all add: no_results_config_def)
qed

lemma reachable_no_results:
  assumes "obtener_urls_imagenes net q n s = (Return [], s1)"
  shows "reachable net q n s c \<longleftrightarrow> c = init_config s \<or> c = no_results_config s1"
proof
  assume "reachable net q n s c"
  then show "c = init_config s \<or> c = no_results_config s1"
  proof (induction rule: reachable.induct)
    case start
    then show ?case by simp
  next
    case (step c c')
    then show ?case
      using assms step_from_init_empty no_step_from_no_results by blast
  qed
next
  assume "c = init_config s \<or> c = no_results_config s1"
  then show "reachable net q n s c"
  proof
    assume "c = init_config s"
    then show ?thesis by (simp add: reachable.start)
  next
    assume c: "c = no_results_config s1"
    have "run_step net q n (init_config s)
            ((init_config s)\<lparr>st := print_line msg_no_images s1, pc := Returned (Return ())\<rparr>)"
      by (rule run_step.search_empty) (simp_all add: init_config_def assms)
    then have "run_step net q n (init_config s) (no_results_config s1)"
      by (simp add: init_config_def no_results_config_def)
    with reachable.start [of net q n s] c show ?thesis
      by (auto intro: reachable.step)
  qed
qed

lemma reachable_spawning:
  assumes "obtener_urls_imagenes net q n s = (Return us, s1)" and "us \<noteq> []"
  shows "i \<le> length us \<Longrightarrow> reachable net q n s (spawning_config s1 us i)"
proof (induction i)
  case 0
  have "run_step net q n (init_config s) ((init_config s)\<lparr>st := s1, pc := Spawning 0, urls := us\<rparr>)"
    by (rule run_step.search_found [where us = us]) (simp_all add: init_config_def assms)
  then have "run_step net q n (init_config s) (spawning_config s1 us 0)"
    by (simp add: init_config_def spawning_config_def)
  with reachable.start [of net q n s] show ?case by (rule reachable.step)
next
  case (Suc i)
  then have r: "reachable net q n s (spawning_config s1 us i)" and i: "i < length us" by simp_all
  have "run_step net q n (spawning_config s1 us i)
          ((spawning_config s1 us i)\<lparr>pc := Spawning (Suc i),
             hilos := hilos (spawning_config s1 us i) @ [nuevo_hilo (urls (spawning_config s1 us i)) i]\<rparr>)"
    by (rule run_step.spawn) (simp_all add: spawning_config_def i)
  then have "run_step net q n (spawning_config s1 us i) (spawning_config s1 us (Suc i))"
    by (simp add: spawning_config_def)
  with r show ?case by (rule reachable.step)
qed

lemma reachable_all_started:
  assumes "obtener_urls_imagenes net q n s = (Return us, s1)" and "us \<noteq> []"
  shows "reachable net q n s (all_started_config s1 us)"
proof -
  have r: "reachable net q n s (spawning_config s1 us (length us))"
    by (rule reachable_spawning [OF assms]) simp
  have "run_step net q n (spawning_config s1 us (length us))
          ((spawning_config s1 us (length us))\<lparr>pc := Joining 0\<rparr>)"
    by (rule run_step.spawned [where i = "length us"]) (simp_all add: spawning_config_def)
  then have "run_step net q n (spawning_config s1 us (length us)) (all_started_config s1 us)"
    by (simp add: spawning_config_def all_started_config_def)
  with r show ?thesis by (rule reachable.step)
qed

lemma tasks_all_started: "tasks (hilos (all_started_config s1 us)) = expected_tasks us"
  by (simp add: all_started_config_def tasks_def expected_tasks_def nuevo_hilo_def)

lemma reachable_tasks:
  assumes "reachable net q n s c" and "fst (obtener_urls_imagenes net q n s) = Return us"
  shows "(\<exists>i \<le> length us. tasks (hilos c) = take i (expected_tasks us)) \<and>
         ((\<exists>j. pc c = Joining j) \<or> (\<exists>r. pc c = Returned r) \<longrightarrow> tasks (hilos c) = expected_tasks us)"
proof -
  from assms(1) have inv: "run_inv net q n s c" by (rule reachable_inv)
  show ?thesis
  proof (cases "pc c")
    case Searching
    with inv show ?thesis by (auto simp: run_inv_def tasks_def intro: exI [of _ 0])
  next
    case (Spawning i)
    with inv assms(2) show ?thesis by (auto simp: run_inv_def)
  next
    case (Joining j)
    with inv assms(2) have "tasks (hilos c) = expected_tasks us" by (auto simp: run_inv_def)
    with Joining show ?thesis
      by (auto simp: expected_tasks_length intro!: exI [of _ "length us"])
  next
    case (Returned r)
    with inv assms(2) have "tasks (hilos c) = expected_tasks us" by (auto simp: run_inv_def)
    with Returned show ?thesis
      by (auto simp: expected_tasks_length intro!: exI [of _ "length us"])
  qed
qed

lemma expected_tasks_nth:
  "i < length us \<Longrightarrow> expected_tasks us ! i = (us ! i, ''imagen_'' @ str_nat (i + 1) @ ''.jpg'')"
  by (simp add: expected_tasks_def nombre_archivo_de_def)

lemma expected_tasks_filenames:
  "map snd (expected_tasks us) = map nombre_archivo_de [0..<length us]"
  by (simp add: expected_tasks_def comp_def)

lemma returned_all_finished:
  assumes "reachable net q n s c" and "pc c = Returned r"
  shows "\<forall>h \<in> set (hilos c). finished h"
  using reachable_inv [OF assms(1)] assms(2) by (simp add: run_inv_def)

lemma returned_raise:
  assumes "reachable net q n s c" and "pc c = Returned (Raise e)"
  shows "fst (obtener_urls_imagenes net q n s) = Raise e"
  using reachable_inv [OF assms(1)] assms(2)
  by (cases "fst (obtener_urls_imagenes net q n s)") (simp_all add: run_inv_def)

lemma main_waits:
  assumes "run_step net q n c c'" and "pc c = Joining j" and "j < length (hilos c)"
    and "\<not> finished (hilos c ! j)"
  shows "pc c' = Joining j"
  using assms by (cases rule: run_step.cases) (auto simp: finished_def)

section \<open>The attributes of the instance\<close>

lemma same_attributes_refl: "same_attributes s s"
  by (simp add: same_attributes_def)

lemma same_attributes_trans: "same_attributes s s1 \<Longrightarrow> same_attributes s1 s2 \<Longrightarrow> same_attributes s s2"
  by (simp add: same_attributes_def)

lemma same_attributes_print: "same_attributes s (print_line m s)"
  by (simp add: same_attributes_def print_line_def)

lemma same_attributes_fs: "same_attributes s (s\<lparr>fs := f\<rparr>)"
  by (simp add: same_attributes_def)

lemma search_same_attributes: "same_attributes s (snd (obtener_urls_imagenes net q n s))"
  by (cases "fst (obtener_urls_try net q n s)")
    (simp_all add: obtener_urls_imagenes_alt Let_def same_attributes_def print_line_def)

lemma requests_get_same_attributes: "same_attributes s (snd (requests_get net u ps stream s))"
  by (cases "requests_get net u ps stream s") (simp add: same_attributes_def requests_get_state)

lemma descargar_try_same_attributes: "same_attributes s (snd (descargar_try net u nombre s))"
proof -
  obtain g s1 where g: "requests_get net u [] True s = (g, s1)"
    by (cases "requests_get net u [] True s")
  with requests_get_same_attributes [of s net u "[]" True] have s1: "same_attributes s s1" by simp
  show ?thesis
  proof (cases "\<exists>r. g = Return r \<and> raise_for_status r = Return ()")
    case False
    with g s1 show ?thesis
      by (cases g; cases "raise_for_status (case g of Return r \<Rightarrow> r)")
        (auto simp: descargar_try_def)
  next
    case True
    then obtain r where r: "g = Return r" "raise_for_status r = Return ()" by blast
    note unf = descargar_try_unfold [OF g [unfolded r(1)] r(2), of nombre]
    show ?thesis
    proof (cases "open_wb (fs s1) (os_path_join (directorio_imagenes s1) nombre)")
      case (Return kf)
      obtain k f1 where kf: "kf = (k, f1)" by (cases kf)
      obtain w f2 where w: "escribir_fragmentos f1 k r = (w, f2)"
        by (cases "escribir_fragmentos f1 k r")
      with unf Return kf s1 show ?thesis
        by (cases w) (simp_all add: print_line_def same_attributes_def)
    next
      case (Raise e)
      with unf s1 show ?thesis by simp
    next
      case Hang
      with unf s1 show ?thesis by simp
    qed
  qed
qed

lemma fetch_same_attributes: "same_attributes s (snd (descargar_imagen net u nombre s))"
  using descargar_try_same_attributes [of s net u nombre]
  by (cases "fst (descargar_try net u nombre s)")
    (simp_all add: descargar_imagen_alt same_attributes_def print_line_def)

lemma run_step_same_attributes:
  assumes "run_step net q n c c'"
  shows "same_attributes (st c) (st c')"
  using assms
proof (cases rule: run_step.cases)
  case (search_empty s1)
  with search_same_attributes [of "st c" net q n] show ?thesis
    by (simp add: same_attributes_def print_line_def)
next
  case (search_found us s1)
  with search_same_attributes [of "st c" net q n] show ?thesis by simp
next
  case (search_raises e s1)
  with search_same_attributes [of "st c" net q n] show ?thesis by simp
next
  case (spawn i)
  then show ?thesis by (simp add: same_attributes_refl)
next
  case (spawned i)
  then show ?thesis by (simp add: same_attributes_refl)
next
  case (thread_runs j r s1)
  with fetch_same_attributes [of "st c" net "target_url (hilos c ! j)" "target_nombre (hilos c ! j)"]
  show ?thesis by simp
next
  case (thread_blocks j s1)
  with fetch_same_attributes [of "st c" net "target_url (hilos c ! j)" "target_nombre (hilos c ! j)"]
  show ?thesis by simp
next
  case (join j r)
  then show ?thesis by (simp add: same_attributes_refl)
next
  case (all_joined j)
  then show ?thesis by (simp add: same_attributes_def print_line_def)
qed

lemma reachable_same_attributes: "reachable net q n s c \<Longrightarrow> same_attributes s (st c)"
proof (induction rule: reachable.induct)
  case start
  show ?case by (simp add: init_config_def same_attributes_refl)
next
  case (step c c')
  from step.hyps(2) have "same_attributes (st c) (st c')" by (rule run_step_same_attributes)
  with step.IH show ?case by (rule same_attributes_trans)
qed

lemma walk_prefix_dirs:
  assumes "walk f cur (cs @ ds) = Return k" and "lookup f k = Some Dir"
  shows "\<exists>k'. walk f cur cs = Return k' \<and> lookup f k' = Some Dir"
proof -
  from assms(1) obtain k' where k': "walk f cur cs = Return k'" and rest: "walk f k' ds = Return k"
    by (auto simp: walk_append result_bind_Return_iff)
  from rest assms(2) have "lookup f k' = Some Dir" by (rule walk_Dir_start)
  with k' show ?thesis by blast
qed

section \<open>Run: an execution that returns\<close>

lemma answers_cases:
  assumes "answers net"
  shows "(\<exists>msg. net rq = Fails msg) \<or> (\<exists>r. net rq = Responds r \<and> (\<forall>b. ending r \<noteq> Stalled b))"
proof -
  from assms have "case net rq of
              Fails msg \<Rightarrow> True
            | Responds r \<Rightarrow> (case ending r of Stalled b \<Rightarrow> False | _ \<Rightarrow> True)
            | NoAnswer \<Rightarrow> False"
    unfolding answers_def by (rule spec)
  then show ?thesis
    by (cases "net rq") (auto split: stream_end.splits)
qed

lemma requests_get_not_Hang:
  assumes "answers net"
  shows "fst (requests_get net u ps stream s) \<noteq> Hang"
proof (cases u)
  case (PStr target)
  from answers_cases [OF assms, of "\<lparr>req_url = target, req_params = ps, req_stream = stream\<rparr>"]
  show ?thesis
    by (cases stream) (auto simp: PStr requests_get_def Let_def split: stream_end.splits)
qed (simp_all add: requests_get_def)

lemma escribir_fragmentos_not_Hang:
  assumes "\<forall>b. ending r \<noteq> Stalled b"
  shows "fst (escribir_fragmentos f k r) \<noteq> Hang"
proof -
  obtain w f1 where w: "write_all f k (fst (iter_content 8192 r)) = (w, f1)"
    by (cases "write_all f k (fst (iter_content 8192 r))")
  with write_all_not_Hang [of f k "fst (iter_content 8192 r)"] have nh: "w \<noteq> Hang" by simp
  from assms have "snd (iter_content 8192 r) \<noteq> Hang"
    by (cases "ending r") (simp_all add: iter_content_def)
  with w nh show ?thesis by (cases w) (simp_all add: escribir_fragmentos_def)
qed

lemma descargar_try_not_Hang:
  assumes "answers net"
  shows "fst (descargar_try net u nombre s) \<noteq> Hang"
proof -
  obtain g s1 where g: "requests_get net u [] True s = (g, s1)"
    by (cases "requests_get net u [] True s")
  with requests_get_not_Hang [OF assms, of u "[]" True s] have gh: "g \<noteq> Hang" by simp
  show ?thesis
  proof (cases "\<exists>r. g = Return r \<and> raise_for_status r = Return ()")
    case False
    with g gh raise_for_status_not_Hang show ?thesis
      by (cases g; cases "raise_for_status (case g of Return r \<Rightarrow> r)")
        (auto simp: descargar_try_def)
  next
    case True
    then obtain r where r: "g = Return r" "raise_for_status r = Return ()" by blast
    from g r(1) requests_get_Return obtain target where "net (fetch_request target) = Responds r"
      by blast
    with answers_cases [OF assms, of "fetch_request target"] have ns: "\<forall>b. ending r \<noteq> Stalled b"
      by auto
    note unf = descargar_try_unfold [OF g [unfolded r(1)] r(2), of nombre]
    show ?thesis
    proof (cases "open_wb (fs s1) (os_path_join (directorio_imagenes s1) nombre)")
      case (Return kf)
      obtain k f1 where kf: "kf = (k, f1)" by (cases kf)
      obtain w f2 where w: "escribir_fragmentos f1 k r = (w, f2)"
        by (cases "escribir_fragmentos f1 k r")
      with escribir_fragmentos_not_Hang [OF ns, of f1 k] have "w \<noteq> Hang" by simp
      with unf Return kf w show ?thesis by (cases w) simp_all
    next
      case (Raise e)
      with unf show ?thesis by simp
    next
      case Hang
      with open_wb_not_Hang show ?thesis by blast
    qed
  qed
qed

lemma fetch_not_Hang: "answers net \<Longrightarrow> fst (descargar_imagen net u nombre s) \<noteq> Hang"
  using descargar_try_not_Hang [of net u nombre s]
  by (cases "fst (descargar_try net u nombre s)") (simp_all add: descargar_imagen_alt)

lemma result_bind_Hang_iff:
  "(result_bind m f = Hang) = (m = Hang \<or> (\<exists>x. m = Return x \<and> f x = Hang))"
  by (cases m) auto

lemma getitem_str_not_Hang: "getitem_str v k \<noteq> Hang"
  by (cases v) (simp_all split: option.splits)

lemma py_iter_not_Hang: "py_iter v \<noteq> Hang"
  by (cases v) simp_all

lemma traverse_not_Hang: "(\<And>x. f x \<noteq> Hang) \<Longrightarrow> traverse f xs \<noteq> Hang"
  by (induction xs) (auto simp: result_bind_Hang_iff)

lemma extraer_urls_not_Hang: "extraer_urls r \<noteq> Hang"
  by (auto simp: extraer_urls_def raise_for_status_def response_json_def result_bind_Hang_iff
      getitem_str_not_Hang py_iter_not_Hang traverse_not_Hang split: option.splits)

lemma search_not_Hang:
  assumes "answers net"
  shows "fst (obtener_urls_imagenes net q n s) \<noteq> Hang"
proof -
  from answers_cases [OF assms, of "search_request s q n"] extraer_urls_not_Hang
  have "fst (obtener_urls_try net q n s) \<noteq> Hang"
    by (auto simp: obtener_urls_try_result split: stream_end.splits)
  then show ?thesis
    by (cases "fst (obtener_urls_try net q n s)") (simp_all add: obtener_urls_imagenes_alt Let_def)
qed

lemma run_threads:
  assumes "answers net" and "obtener_urls_imagenes net q n s = (Return us, s1)" and "us \<noteq> []"
  shows "k \<le> length us \<Longrightarrow>
     \<exists>c. reachable net q n s c \<and> pc c = Joining 0 \<and> length (hilos c) = length us \<and>
         (\<forall>i < k. finished (hilos c ! i)) \<and>
         (\<forall>i. k \<le> i \<and> i < length us \<longrightarrow> estado (hilos c ! i) = Running)"
proof (induction k)
  case 0
  have "reachable net q n s (all_started_config s1 us)"
    using assms(2,3) by (rule reachable_all_started)
  moreover have "pc (all_started_config s1 us) = Joining 0"
    and "length (hilos (all_started_config s1 us)) = length us"
    and "\<forall>i. i < length us \<longrightarrow> estado (hilos (all_started_config s1 us) ! i) = Running"
    by (simp_all add: all_started_config_def nuevo_hilo_def)
  ultimately show ?case by (intro exI [of _ "all_started_config s1 us"]) simp
next
  case (Suc k)
  then obtain c where r: "reachable net q n s c" and pc: "pc c = Joining 0"
    and len: "length (hilos c) = length us" and fin: "\<forall>i < k. finished (hilos c ! i)"
    and run: "\<forall>i. k \<le> i \<and> i < length us \<longrightarrow> estado (hilos c ! i) = Running"
    by auto
  from Suc.prems have k: "k < length (hilos c)" by (simp add: len)
  from run Suc.prems have rk: "estado (hilos c ! k) = Running" by simp
  obtain res s2 where d: "descargar_imagen net (target_url (hilos c ! k)) (target_nombre (hilos c ! k)) (st c) = (res, s2)"
    by (cases "descargar_imagen net (target_url (hilos c ! k)) (target_nombre (hilos c ! k)) (st c)")
  with fetch_not_Hang [OF assms(1), of "target_url (hilos c ! k)" "target_nombre (hilos c ! k)" "st c"]
  have nh: "res \<noteq> Hang" by simp
  let ?c' = "c\<lparr>st := s2, hilos := (hilos c)[k := (hilos c ! k)\<lparr>estado := Finished res\<rparr>]\<rparr>"
  from k rk d nh have "run_step net q n c ?c'" by (rule run_step.thread_runs)
  with r have "reachable net q n s ?c'" by (rule reachable.step)
  moreover have "pc ?c' = Joining 0" by (simp add: pc)
  moreover have "length (hilos ?c') = length us" by (simp add: len)
  moreover have "\<forall>i < Suc k. finished (hilos ?c' ! i)"
    using fin k by (auto simp: less_Suc_eq nth_list_update finished_def)
  moreover have "\<forall>i. Suc k \<le> i \<and> i < length us \<longrightarrow> estado (hilos ?c' ! i) = Running"
    using run by (auto simp: nth_list_update)
  ultimately show ?case by blast
qed

lemma run_joins:
  assumes "answers net" and "obtener_urls_imagenes net q n s = (Return us, s1)" and "us \<noteq> []"
  shows "j \<le> length us \<Longrightarrow>
     \<exists>c. reachable net q n s c \<and> pc c = Joining j \<and> length (hilos c) = length us \<and>
         (\<forall>i < length us. finished (hilos c ! i))"
proof (induction j)
  case 0
  from run_threads [OF assms, of "length us"] show ?case by auto
next
  case (Suc j)
  then obtain c where r: "reachable net q n s c" and pc: "pc c = Joining j"
    and len: "length (hilos c) = length us" and fin: "\<forall>i < length us. finished (hilos c ! i)"
    by auto
  from Suc.prems have j: "j < length (hilos c)" by (simp add: len)
  with fin len obtain res where "estado (hilos c ! j) = Finished res"
    by (cases "estado (hilos c ! j)") (auto simp: finished_def)
  with pc j have "run_step net q n c (c\<lparr>pc := Joining (Suc j)\<rparr>)" by (rule run_step.join)
  with r have "reachable net q n s (c\<lparr>pc := Joining (Suc j)\<rparr>)" by (rule reachable.step)
  with len fin show ?case by (intro exI [of _ "c\<lparr>pc := Joining (Suc j)\<rparr>"]) simp
qed

lemma run_can_return:
  assumes "answers net"
  shows "\<exists>c r. reachable net q n s c \<and> pc c = Returned r"
proof -
  obtain res s1 where sr: "obtener_urls_imagenes net q n s = (res, s1)"
    by (cases "obtener_urls_imagenes net q n s")
  with search_not_Hang [OF assms, of q n s] have nh: "res \<noteq> Hang" by simp
  show ?thesis
  proof (cases res)
    case (Return us)
    show ?thesis
    proof (cases "us = []")
      case True
      with sr Return have "reachable net q n s (no_results_config s1)"
        by (simp add: reachable_no_results)
      moreover have "pc (no_results_config s1) = Returned (Return ())"
        by (simp add: no_results_config_def)
      ultimately show ?thesis by blast
    next
      case False
      from run_joins [OF assms sr [unfolded Return] False, of "length us"]
      obtain c where r: "reachable net q n s c" and pc: "pc c = Joining (length us)"
        and len: "length (hilos c) = length us" by auto
      from pc len have "run_step net q n c (c\<lparr>st := print_line msg_all_done (st c), pc := Returned (Return ())\<rparr>)"
        by (intro run_step.all_joined [where j = "length us"]) simp_all
      with r have "reachable net q n s (c\<lparr>st := print_line msg_all_done (st c), pc := Returned (Return ())\<rparr>)"
        by (rule reachable.step)
      then show ?thesis
        by (intro exI [of _ "c\<lparr>st := print_line msg_all_done (st c), pc := Returned (Return ())\<rparr>"] exI [of _ "Return ()"]) simp
    qed
  next
    case (Raise e)
    have "run_step net q n (init_config s) ((init_config s)\<lparr>st := s1, pc := Returned (Raise e)\<rparr>)"
      by (rule run_step.search_raises) (simp_all add: init_config_def sr [unfolded Raise])
    with reachable.start [of net q n s]
    have "reachable net q n s ((init_config s)\<lparr>st := s1, pc := Returned (Raise e)\<rparr>)"
      by (rule reachable.step)
    then show ?thesis
      by (intro exI [of _ "(init_config s)\<lparr>st := s1, pc := Returned (Raise e)\<rparr>"] exI [of _ "Raise e"]) simp
  next
    case Hang
    with nh show ?thesis by simp
  qed
qed

section \<open>The claims\<close>

text \<open>
  C4 (as amended). For every keyword and count, the sequence search returns has exactly
  one element per result entry of the provider's response when it is not empty: search
  sends \<^verbatim>\<open>per_page = count\<close> and does not truncate what comes back, so its length is at
  most \<open>count\<close> whenever the provider returns at most \<open>count\<close> entries.
\<close>

theorem search_length:
  assumes "fst (obtener_urls_imagenes net q n s) = Return us"
  shows "(us = [] \<or> length us = length (provider_entries (net (search_request s q n)))) \<and>
         (int (length (provider_entries (net (search_request s q n)))) \<le> n \<longrightarrow> int (length us) \<le> n)"
proof -
  from search_returns_cases [OF assms]
  have "us = [] \<or> length us = length (provider_entries (net (search_request s q n)))"
    by (auto simp: provider_entries_def dest: extraer_urls_length)
  then show ?thesis by auto
qed

lemma search_two_hits:
  "fst (obtener_urls_imagenes (\<lambda>rq. Responds (json_response 200 two_hits)) ''perros'' n state_example) =
     Return [PStr ''http://x/a.jpg'', PStr ''http://x/b.jpg'']"
  by (simp add: obtener_urls_imagenes_alt obtener_urls_try_result Let_def json_response_def
      extraer_urls_def raise_for_status_def response_json_def two_hits_def hit_def)

lemma two_hits_entries: "length (provider_entries (Responds (json_response 200 two_hits))) = 2"
  by (simp add: provider_entries_def response_entries_def json_response_def two_hits_def)

theorem search_length_witness:
  "fst (obtener_urls_imagenes (\<lambda>rq. Responds (json_response 200 two_hits)) ''perros'' 2 state_example) =
     Return [PStr ''http://x/a.jpg'', PStr ''http://x/b.jpg''] \<and>
   length (provider_entries (Responds (json_response 200 two_hits))) = 2 \<and>
   int (length [PStr ''http://x/a.jpg'', PStr ''http://x/b.jpg'']) \<le> 2"
  using search_length [OF search_two_hits [of 2]] search_two_hits [of 2] two_hits_entries
  by simp

theorem search_length_counterexample:
  "fst (obtener_urls_imagenes (\<lambda>rq. Responds (json_response 200 two_hits)) ''perros'' 1 state_example) =
     Return [PStr ''http://x/a.jpg'', PStr ''http://x/b.jpg''] \<and>
   (0::int) \<le> 1 \<and> \<not> int (length [PStr ''http://x/a.jpg'', PStr ''http://x/b.jpg'']) \<le> 1"
  by (simp add: search_two_hits)

end
